theory Spec2Isabelle
  imports Complex_Main "HOL-Library.AList" "HOL-Library.Sublist" "HOL-Library.List_Lexorder"
begin

section \<open>Python values used by analyze.py\<close>

text \<open>
  A Python \<open>str\<close> is a sequence of Unicode code points, and \<open>len\<close> counts code points.
  It is modelled as a list of code point numbers; \<open>ascii\<close> turns an ASCII literal of the
  source into such a list.
\<close>

type_synonym pystr = "nat list"

definition ascii :: "string \<Rightarrow> pystr" where
  "ascii s = map of_char s"

text \<open>The exceptions the analysis can raise.\<close>

datatype error = KeyError | TypeError | ZeroDivisionError | AttributeError

text \<open>Sequencing of two computations that may raise: the first exception wins.\<close>

definition ebind :: "error + 'a \<Rightarrow> ('a \<Rightarrow> error + 'b) \<Rightarrow> error + 'b" where
  "ebind m f = (case m of Inl e \<Rightarrow> Inl e | Inr x \<Rightarrow> f x)"

text \<open>
  An entry \<open>avg_msg_len\<close> holds an \<open>int\<close> while messages are folded, and after the last
  loop either that \<open>int\<close> or the \<open>float\<close> that \<open>/=\<close> produced. \<open>PyFloat q\<close> stands for
  the float Python's true division of two ints returns for the exact quotient \<open>q\<close>
  (the double nearest to \<open>q\<close>).
\<close>

datatype pynum = PyInt int | PyFloat rat

text \<open>
  \<open>a / b\<close> for two ints. The quotients the analysis forms, a sum of lengths by a count,
  are far inside the range of a float, so the overflow error of the division is left out.
\<close>

definition true_div :: "int \<Rightarrow> int \<Rightarrow> error + pynum" where
  "true_div a b = (if b = 0 then Inl ZeroDivisionError else Inr (PyFloat (of_int a / of_int b)))"

text \<open>\<open>str(n)\<close> and \<open>'%d' % n\<close> for an int, and \<open>'%02d' % n\<close>.\<close>

fun digits :: "nat \<Rightarrow> pystr" where
  "digits n = (if n < 10 then [48 + n] else digits (n div 10) @ [48 + n mod 10])"

declare digits.simps [simp del]

definition str_int :: "int \<Rightarrow> pystr" where
  "str_int n = (if n < 0 then 45 # digits (nat (- n)) else digits (nat n))"

definition fmt_02d :: "int \<Rightarrow> pystr" where
  "fmt_02d n =
     (if n < 0 then 45 # digits (nat (- n))
      else let ds = digits (nat n) in replicate (2 - length ds) 48 @ ds)"

text \<open>\<open>s.count(sub)\<close>: the number of non-overlapping occurrences, scanning from the left.\<close>

function str_count :: "pystr \<Rightarrow> pystr \<Rightarrow> nat" where
  "str_count sub s =
     (if sub = [] then Suc (length s)
      else if s = [] then 0
      else if prefix sub s then Suc (str_count sub (drop (length sub) s))
      else str_count sub (tl s))"
  by pat_completeness auto
termination
  by (relation "measure (\<lambda>(sub, s). length s)") auto

declare str_count.simps [simp del]

text \<open>\<open>sub in s\<close> for two strings.\<close>

fun str_contains :: "pystr \<Rightarrow> pystr \<Rightarrow> bool" where
  "str_contains sub [] = (sub = [])"
| "str_contains sub (c # cs) = (prefix sub (c # cs) \<or> str_contains sub cs)"

text \<open>Truth value of an optional list (\<open>msg.get(key)\<close> used as a condition).\<close>

definition truthy :: "'a list option \<Rightarrow> bool" where
  "truthy v = (case v of None \<Rightarrow> False | Some xs \<Rightarrow> xs \<noteq> [])"

section \<open>The conversation document\<close>

text \<open>
  \<open>timestamp\<close> is the \<open>datetime\<close> that \<open>analyze\<close> stores into every message before the
  analysis starts; only its \<open>year\<close>, \<open>month\<close> and \<open>hour\<close> are read.
\<close>

record datetime =
  year :: int
  month :: int
  hour :: int

definition valid_datetime :: "datetime \<Rightarrow> bool" where
  "valid_datetime stamp \<longleftrightarrow>
     1 \<le> year stamp \<and> year stamp \<le> 9999 \<and> 1 \<le> month stamp \<and> month stamp \<le> 12 \<and>
     0 \<le> hour stamp \<and> hour stamp \<le> 23"

record attachment =
  uri :: pystr

record reaction =
  actor :: pystr

record msg =
  sender_name :: pystr
  timestamp :: datetime
  content :: "pystr option"
  photos :: "attachment list option"
  gifs :: "attachment list option"
  videos :: "attachment list option"
  msg_reactions :: "reaction list option"
  share :: "(pystr \<times> pystr) list option"

record participant =
  name :: pystr

text \<open>\<open>args.interval\<close>, one of \<open>INTERVALS\<close>.\<close>

datatype interval_arg = hourly | monthly | yearly

text \<open>An interval key: \<open>stamp.hour\<close> (an int) or a formatted string.\<close>

datatype interval = IntKey int | StrKey pystr

section \<open>The statistics table\<close>

text \<open>
  One dict of \<open>DATA_COLLECTED\<close>'s keys. The type parameter is the type of \<open>avg_msg_len\<close>:
  \<open>int\<close> during the fold, \<open>pynum\<close> in the finished table.
\<close>

record 'n counters =
  msgs_sent :: int
  avg_msg_len :: 'n
  photos_sent :: int
  vids_sent :: int
  links_sent :: int
  gifs_sent :: int
  emojis_sent :: int
  reactions :: int

text \<open>
  A participant's dict: the eight counters (\<open>general\<close>) and, under the key \<open>'int'\<close>,
  a dict from interval key to counters (\<open>ints\<close>). A dict is an association list with
  the keys in insertion order; \<open>AList.update\<close> is dict assignment.
\<close>

record 'n pstats =
  general :: "'n counters"
  ints :: "(interval \<times> 'n counters) list"

text \<open>
  \<open>stats\<close> maps every participant's name to that participant's dict, and the key
  \<open>'intervals'\<close> to the list of interval keys seen so far.
\<close>

datatype 'n entry = Person "'n pstats" | Intervals "interval list"

type_synonym 'n stats = "(pystr \<times> 'n entry) list"

definition intervals_key :: pystr where
  "intervals_key = ascii ''intervals''"

text \<open>\<open>_create_stats()\<close>\<close>

definition create_stats_sub :: "int counters" where
  "create_stats_sub =
     \<lparr>msgs_sent = 0, avg_msg_len = 0, photos_sent = 0, vids_sent = 0, links_sent = 0,
      gifs_sent = 0, emojis_sent = 0, reactions = 0\<rparr>"

definition create_stats :: "interval_arg \<Rightarrow> int pstats" where
  "create_stats args =
     \<lparr>general = create_stats_sub,
      ints = (case args of
                hourly \<Rightarrow> map (\<lambda>hr. (IntKey (int hr), create_stats_sub)) [0..<24]
              | monthly \<Rightarrow> []
              | yearly \<Rightarrow> [])\<rparr>"

section \<open>Classification of one message\<close>

text \<open>
  \<open>UNICODE_EMOJI\<close> comes from the package \<open>emoji\<close>; the set of its keys is a parameter.
  \<open>reduce(f, s, 0)\<close> is \<open>foldl f 0 s\<close>; the marker \<open>'\\u'\<close> is a backslash followed by \<open>u\<close>.
\<close>

definition count_emoji :: "pystr set \<Rightarrow> pystr \<Rightarrow> int" where
  "count_emoji UNICODE_EMOJI_keys s =
     (let unorthodox_counting = int (str_count [92, 117] s) div 4;
          orthodox_counting =
            foldl (\<lambda>a c. a + (if [c] \<in> UNICODE_EMOJI_keys then 1 else 0)) 0 s
      in unorthodox_counting + orthodox_counting)"

definition is_gif :: "attachment \<Rightarrow> bool" where
  "is_gif p = str_contains (ascii ''.gif'') (uri p)"

definition get_correct_interval :: "datetime \<Rightarrow> interval_arg \<Rightarrow> interval" where
  "get_correct_interval stamp args =
     (case args of
        hourly \<Rightarrow> IntKey (hour stamp)
      | monthly \<Rightarrow> StrKey (str_int (year stamp) @ ascii ''-'' @ fmt_02d (month stamp))
      | yearly \<Rightarrow> StrKey (str_int (year stamp)))"

text \<open>The counting loop of \<open>handle_photos_and_gifs\<close>: the pair \<open>(photos, gifs)\<close>.\<close>

fun count_photos_gifs :: "attachment list \<Rightarrow> int \<times> int \<Rightarrow> int \<times> int" where
  "count_photos_gifs [] (n_photos, n_gifs) = (n_photos, n_gifs)"
| "count_photos_gifs (p # ps) (n_photos, n_gifs) =
     (if is_gif p then count_photos_gifs ps (n_photos, n_gifs + 1)
      else count_photos_gifs ps (n_photos + 1, n_gifs))"

definition get_list :: "'a list option \<Rightarrow> 'a list" where
  "get_list v = (case v of None \<Rightarrow> [] | Some xs \<Rightarrow> xs)"

section \<open>Folding messages into the table\<close>

text \<open>
  \<open>stats[name]\<close> read as a participant's dict: a missing key raises \<open>KeyError\<close>, and
  subscripting the list stored under \<open>'intervals'\<close> with a string raises \<open>TypeError\<close>.
\<close>

definition get_person :: "'n stats \<Rightarrow> pystr \<Rightarrow> error + 'n pstats" where
  "get_person stats who =
     (case map_of stats who of
        None \<Rightarrow> Inl KeyError
      | Some (Intervals l) \<Rightarrow> Inl TypeError
      | Some (Person p) \<Rightarrow> Inr p)"

text \<open>
  \<open>stats['intervals']\<close> read as the list of interval keys (a dict there has no
  \<open>append\<close>).
\<close>

definition get_intervals :: "'n stats \<Rightarrow> error + interval list" where
  "get_intervals stats =
     (case map_of stats intervals_key of
        None \<Rightarrow> Inl KeyError
      | Some (Intervals l) \<Rightarrow> Inr l
      | Some (Person p) \<Rightarrow> Inl AttributeError)"

text \<open>
  \<open>if interval not in stats[name]['int']: stats[name]['int'][interval] = _create_stats()\<close>
\<close>

definition ensure_interval :: "int stats \<Rightarrow> pystr \<Rightarrow> interval \<Rightarrow> error + int stats" where
  "ensure_interval stats who interval =
     ebind (get_person stats who) (\<lambda>p.
       Inr (if interval \<notin> set (map fst (ints p))
            then AList.update who
                   (Person (p\<lparr>ints := AList.update interval create_stats_sub (ints p)\<rparr>)) stats
            else stats))"

text \<open>
  Every handler applies the same increments \<open>f\<close> first to \<open>stats[name]\<close> and then to
  \<open>stats[name]['int'][interval]\<close>; the second lookup raises \<open>KeyError\<close> when the
  interval has no entry.
\<close>

definition increment ::
  "int stats \<Rightarrow> pystr \<Rightarrow> interval \<Rightarrow> (int counters \<Rightarrow> int counters) \<Rightarrow> error + int stats" where
  "increment stats who interval f =
     ebind (get_person stats who) (\<lambda>p.
       case map_of (ints p) interval of
         None \<Rightarrow> Inl KeyError
       | Some c \<Rightarrow>
           Inr (AList.update who
                  (Person \<lparr>general = f (general p),
                           ints = AList.update interval (f c) (ints p)\<rparr>) stats))"

definition handle_content ::
  "pystr set \<Rightarrow> int stats \<Rightarrow> interval \<Rightarrow> msg \<Rightarrow> error + int stats" where
  "handle_content UNICODE_EMOJI_keys stats interval m =
     (case content m of
        None \<Rightarrow> Inl KeyError
      | Some text \<Rightarrow>
          let emojis = count_emoji UNICODE_EMOJI_keys text in
          increment stats (sender_name m) interval
            (\<lambda>c. c\<lparr>msgs_sent := msgs_sent c + 1,
                   avg_msg_len := avg_msg_len c + int (length text),
                   emojis_sent := emojis_sent c + emojis\<rparr>))"

definition handle_photos_and_gifs :: "int stats \<Rightarrow> interval \<Rightarrow> msg \<Rightarrow> error + int stats" where
  "handle_photos_and_gifs stats interval m =
     (case count_photos_gifs (get_list (photos m) @ get_list (gifs m)) (0, 0) of
        (n_photos, n_gifs) \<Rightarrow>
          increment stats (sender_name m) interval
            (\<lambda>c. c\<lparr>photos_sent := photos_sent c + n_photos,
                   gifs_sent := gifs_sent c + n_gifs\<rparr>))"

text \<open>
  An augmented assignment evaluates its target before its right-hand side: \<open>stats[name]\<close>
  is looked up before \<open>msg['videos']\<close>.
\<close>

definition handle_videos :: "int stats \<Rightarrow> interval \<Rightarrow> msg \<Rightarrow> error + int stats" where
  "handle_videos stats interval m =
     ebind (get_person stats (sender_name m)) (\<lambda>p.
       case videos m of
         None \<Rightarrow> Inl KeyError
       | Some vs \<Rightarrow>
           increment stats (sender_name m) interval
             (\<lambda>c. c\<lparr>vids_sent := vids_sent c + int (length vs)\<rparr>))"

definition handle_links :: "int stats \<Rightarrow> interval \<Rightarrow> msg \<Rightarrow> error + int stats" where
  "handle_links stats interval m =
     increment stats (sender_name m) interval (\<lambda>c. c\<lparr>links_sent := links_sent c + 1\<rparr>)"

text \<open>The body of the loop of \<open>handle_reactions\<close>, and the loop.\<close>

definition handle_reaction :: "int stats \<Rightarrow> interval \<Rightarrow> reaction \<Rightarrow> error + int stats" where
  "handle_reaction stats interval rs =
     ebind (ensure_interval stats (actor rs) interval) (\<lambda>stats1.
       increment stats1 (actor rs) interval (\<lambda>c. c\<lparr>reactions := reactions c + 1\<rparr>))"

fun handle_reactions_loop ::
  "int stats \<Rightarrow> interval \<Rightarrow> reaction list \<Rightarrow> error + int stats" where
  "handle_reactions_loop stats interval [] = Inr stats"
| "handle_reactions_loop stats interval (rs # rest) =
     ebind (handle_reaction stats interval rs) (\<lambda>stats1.
       handle_reactions_loop stats1 interval rest)"

definition handle_reactions :: "int stats \<Rightarrow> interval \<Rightarrow> msg \<Rightarrow> error + int stats" where
  "handle_reactions stats interval m =
     (case msg_reactions m of
        None \<Rightarrow> Inl KeyError
      | Some rss \<Rightarrow> handle_reactions_loop stats interval rss)"

text \<open>\<open>if interval not in stats['intervals']: stats['intervals'].append(interval)\<close>\<close>

definition note_interval :: "int stats \<Rightarrow> interval \<Rightarrow> error + int stats" where
  "note_interval stats interval =
     ebind (get_intervals stats) (\<lambda>seen.
       Inr (if interval \<notin> set seen
            then AList.update intervals_key (Intervals (seen @ [interval])) stats
            else stats))"

text \<open>The body of the loop over \<open>convo['messages']\<close> in \<open>analyze\<close>.\<close>

definition analyze_step ::
  "pystr set \<Rightarrow> interval_arg \<Rightarrow> int stats \<Rightarrow> msg \<Rightarrow> error + int stats" where
  "analyze_step UNICODE_EMOJI_keys args stats m =
     (let interval = get_correct_interval (timestamp m) args in
      ebind (note_interval stats interval) (\<lambda>s1.
      ebind (ensure_interval s1 (sender_name m) interval) (\<lambda>s2.
      ebind (if truthy (content m)
             then handle_content UNICODE_EMOJI_keys s2 interval m else Inr s2) (\<lambda>s3.
      ebind (if truthy (photos m) \<or> truthy (gifs m)
             then handle_photos_and_gifs s3 interval m else Inr s3) (\<lambda>s4.
      ebind (if truthy (videos m) then handle_videos s4 interval m else Inr s4) (\<lambda>s5.
      ebind (if truthy (msg_reactions m)
             then handle_reactions s5 interval m else Inr s5) (\<lambda>s6.
      if truthy (share m) then handle_links s6 interval m else Inr s6)))))))"

fun analyze_loop ::
  "pystr set \<Rightarrow> interval_arg \<Rightarrow> int stats \<Rightarrow> msg list \<Rightarrow> error + int stats" where
  "analyze_loop UNICODE_EMOJI_keys args stats [] = Inr stats"
| "analyze_loop UNICODE_EMOJI_keys args stats (m # ms) =
     ebind (analyze_step UNICODE_EMOJI_keys args stats m) (\<lambda>stats1.
       analyze_loop UNICODE_EMOJI_keys args stats1 ms)"

text \<open>
  The table before the first message: one blank profile per participant (a repeated
  name keeps its first position), then \<open>stats['intervals'] = []\<close>.
\<close>

definition initial_stats :: "interval_arg \<Rightarrow> participant list \<Rightarrow> int stats" where
  "initial_stats args ps =
     AList.update intervals_key (Intervals [])
       (fold (\<lambda>p stats. AList.update (name p) (Person (create_stats args)) stats) ps [])"

section \<open>Averaging\<close>

text \<open>A counters dict with its \<open>avg_msg_len\<close> replaced; the other keys are kept.\<close>

definition with_avg :: "int counters \<Rightarrow> pynum \<Rightarrow> pynum counters" where
  "with_avg c v =
     \<lparr>msgs_sent = msgs_sent c, avg_msg_len = v, photos_sent = photos_sent c,
      vids_sent = vids_sent c, links_sent = links_sent c, gifs_sent = gifs_sent c,
      emojis_sent = emojis_sent c, reactions = reactions c\<rparr>"

definition untouched :: "int counters \<Rightarrow> pynum counters" where
  "untouched c = with_avg c (PyInt (avg_msg_len c))"

text \<open>
  \<open>if c['msgs_sent'] > 0: c['avg_msg_len'] /= c['msgs_sent']\<close> for one interval, and the
  loop over \<open>stats[name]['int'].keys()\<close>.
\<close>

definition average_interval :: "int counters \<Rightarrow> error + pynum counters" where
  "average_interval c =
     (if msgs_sent c > 0
      then ebind (true_div (avg_msg_len c) (msgs_sent c)) (\<lambda>q. Inr (with_avg c q))
      else Inr (untouched c))"

fun average_intervals ::
  "(interval \<times> int counters) list \<Rightarrow> error + (interval \<times> pynum counters) list" where
  "average_intervals [] = Inr []"
| "average_intervals ((k, c) # rest) =
     ebind (average_interval c) (\<lambda>c1.
     ebind (average_intervals rest) (\<lambda>rest1. Inr ((k, c1) # rest1)))"

text \<open>
  \<open>stats[name]['avg_msg_len'] /= stats[name]['msgs_sent']\<close>, then the intervals.
\<close>

definition average_person :: "int pstats \<Rightarrow> error + pynum pstats" where
  "average_person p =
     ebind (true_div (avg_msg_len (general p)) (msgs_sent (general p))) (\<lambda>q.
     ebind (average_intervals (ints p)) (\<lambda>is.
       Inr \<lparr>general = with_avg (general p) q, ints = is\<rparr>))"

text \<open>
  The loop over \<open>stats.keys()\<close>, which skips the key \<open>'intervals'\<close>. Under any other key
  the list of intervals cannot be subscripted with \<open>'avg_msg_len'\<close>.
\<close>

fun average_all :: "int stats \<Rightarrow> error + pynum stats" where
  "average_all [] = Inr []"
| "average_all ((who, e) # rest) =
     ebind (if who = intervals_key
            then Inr (case e of
                        Intervals l \<Rightarrow> Intervals l
                      | Person p \<Rightarrow>
                          Person \<lparr>general = untouched (general p),
                                  ints = map (\<lambda>(k, c). (k, untouched c)) (ints p)\<rparr>)
            else (case e of
                    Intervals l \<Rightarrow> Inl TypeError
                  | Person p \<Rightarrow> ebind (average_person p) (\<lambda>p1. Inr (Person p1))))
       (\<lambda>e1. ebind (average_all rest) (\<lambda>rest1. Inr ((who, e1) # rest1)))"

text \<open>
  \<open>analyze\<close> from the decoded conversation on: the table it hands to
  \<open>pretty_print_stats\<close>, or the exception it raises.
\<close>

definition analyze ::
  "pystr set \<Rightarrow> interval_arg \<Rightarrow> participant list \<Rightarrow> msg list \<Rightarrow> error + pynum stats" where
  "analyze UNICODE_EMOJI_keys args ps ms =
     ebind (analyze_loop UNICODE_EMOJI_keys args (initial_stats args ps) ms) average_all"

section \<open>Display\<close>

text \<open>
  \<open>stats[p]['int'].get(interval, _create_stats())\<close> of \<open>get_interval_tsv\<close>: an interval
  without an entry reads as all zeros.
\<close>

definition get_person_stats :: "int pstats \<Rightarrow> interval \<Rightarrow> int counters" where
  "get_person_stats p interval =
     (case map_of (ints p) interval of None \<Rightarrow> create_stats_sub | Some c \<Rightarrow> c)"

text \<open>
  The interval keys \<open>print_interval_stats\<close> prints a line for, in the order of its loop.
  Iterating a dict yields its keys.
\<close>

definition print_interval_stats :: "'n stats \<Rightarrow> interval_arg \<Rightarrow> error + interval list" where
  "print_interval_stats stats args =
     (case args of
        hourly \<Rightarrow> Inr (map (\<lambda>hr. IntKey (int hr)) [0..<24])
      | _ \<Rightarrow>
        (case map_of stats intervals_key of
           None \<Rightarrow> Inl KeyError
         | Some (Intervals l) \<Rightarrow> Inr l
         | Some (Person p) \<Rightarrow>
             Inr (map (\<lambda>k. StrKey (ascii k))
                    [''msgs_sent'', ''avg_msg_len'', ''photos_sent'', ''vids_sent'',
                     ''links_sent'', ''gifs_sent'', ''emojis_sent'', ''reactions'', ''int''])))"

text \<open>
  \<open>analyze\<close> ends with \<open>pretty_print_stats(stats, args)\<close>, whose last statement is
  \<open>print_interval_stats(stats, args.interval)\<close>: the interval keys of the lines a whole
  run prints, in order.
\<close>

definition printed_intervals ::
  "pystr set \<Rightarrow> interval_arg \<Rightarrow> participant list \<Rightarrow> msg list \<Rightarrow> error + interval list" where
  "printed_intervals UNICODE_EMOJI_keys args ps ms =
     ebind (analyze UNICODE_EMOJI_keys args ps ms) (\<lambda>stats. print_interval_stats stats args)"

section \<open>What the messages contribute\<close>

text \<open>
  Counters are added key by key. \<open>sent\<close> is what a message adds to the counters of its
  sender (split by handler below), \<open>received\<close> what its reactions add to the counters of
  a participant, and \<open>tally\<close> the sum of the contributions of a list of messages.
\<close>

definition cadd :: "int counters \<Rightarrow> int counters \<Rightarrow> int counters" where
  "cadd c d =
     \<lparr>msgs_sent = msgs_sent c + msgs_sent d, avg_msg_len = avg_msg_len c + avg_msg_len d,
      photos_sent = photos_sent c + photos_sent d, vids_sent = vids_sent c + vids_sent d,
      links_sent = links_sent c + links_sent d, gifs_sent = gifs_sent c + gifs_sent d,
      emojis_sent = emojis_sent c + emojis_sent d, reactions = reactions c + reactions d\<rparr>"

fun csum :: "int counters list \<Rightarrow> int counters" where
  "csum [] = create_stats_sub"
| "csum (c # cs) = cadd c (csum cs)"

definition sent_content :: "pystr set \<Rightarrow> msg \<Rightarrow> int counters" where
  "sent_content K m =
     create_stats_sub
       \<lparr>msgs_sent := (if truthy (content m) then 1 else 0),
        avg_msg_len := int (length (get_list (content m))),
        emojis_sent := count_emoji K (get_list (content m))\<rparr>"

definition sent_photos :: "msg \<Rightarrow> int counters" where
  "sent_photos m =
     create_stats_sub
       \<lparr>photos_sent :=
          int (length (filter (\<lambda>p. \<not> is_gif p) (get_list (photos m) @ get_list (gifs m)))),
        gifs_sent := int (length (filter is_gif (get_list (photos m) @ get_list (gifs m))))\<rparr>"

definition sent_videos :: "msg \<Rightarrow> int counters" where
  "sent_videos m = create_stats_sub\<lparr>vids_sent := int (length (get_list (videos m)))\<rparr>"

definition sent_links :: "msg \<Rightarrow> int counters" where
  "sent_links m = create_stats_sub\<lparr>links_sent := (if truthy (share m) then 1 else 0)\<rparr>"

definition sent :: "pystr set \<Rightarrow> msg \<Rightarrow> int counters" where
  "sent K m = cadd (sent_content K m) (cadd (sent_photos m) (cadd (sent_videos m) (sent_links m)))"

definition received :: "msg \<Rightarrow> pystr \<Rightarrow> int counters" where
  "received m who =
     create_stats_sub
       \<lparr>reactions := int (count_list (map actor (get_list (msg_reactions m))) who)\<rparr>"

definition contribution :: "pystr set \<Rightarrow> msg \<Rightarrow> pystr \<Rightarrow> int counters" where
  "contribution K m who =
     cadd (if sender_name m = who then sent K m else create_stats_sub) (received m who)"

definition tally :: "pystr set \<Rightarrow> msg list \<Rightarrow> pystr \<Rightarrow> int counters" where
  "tally K ms who = csum (map (\<lambda>m. contribution K m who) ms)"

text \<open>What a message adds to the counters of all participants together.\<close>

definition added :: "pystr set \<Rightarrow> msg \<Rightarrow> int counters" where
  "added K m =
     cadd (sent K m)
       (create_stats_sub\<lparr>reactions := int (length (get_list (msg_reactions m)))\<rparr>)"

text \<open>The messages of a list that fall into an interval.\<close>

definition in_interval :: "interval_arg \<Rightarrow> interval \<Rightarrow> msg list \<Rightarrow> msg list" where
  "in_interval args iv ms = filter (\<lambda>m. get_correct_interval (timestamp m) args = iv) ms"

text \<open>
  The sum of a participant's interval counters, and the sum of the all-time counters of
  all participants of a table.
\<close>

definition interval_sum :: "int pstats \<Rightarrow> int counters" where
  "interval_sum p = csum (map snd (ints p))"

definition table_sum :: "int stats \<Rightarrow> int counters" where
  "table_sum st =
     csum (map (\<lambda>(who, e). case e of Person p \<Rightarrow> general p | Intervals l \<Rightarrow> create_stats_sub) st)"

text \<open>
  \<open>grows x d p p'\<close>: the participant's all-time counters grew by \<open>x\<close> and the counters of
  every interval by \<open>d\<close> (an interval without an entry counting as zeros), the interval
  counters together grew by \<open>x\<close>, and no interval entry was lost or duplicated.
  \<open>effect a d t st st'\<close> relates two tables: every name is a participant of both or
  raises the same error in both, every participant grew by \<open>a\<close> and \<open>d\<close>, and all
  participants together by \<open>t\<close>.
\<close>

definition grows ::
  "int counters \<Rightarrow> (interval \<Rightarrow> int counters) \<Rightarrow> int pstats \<Rightarrow> int pstats \<Rightarrow> bool" where
  "grows x d p p' \<longleftrightarrow>
     general p' = cadd (general p) x \<and>
     (\<forall>iv. get_person_stats p' iv = cadd (get_person_stats p iv) (d iv)) \<and>
     interval_sum p' = cadd (interval_sum p) x \<and>
     set (map fst (ints p)) \<subseteq> set (map fst (ints p')) \<and>
     (distinct (map fst (ints p)) \<longrightarrow> distinct (map fst (ints p')))"

definition effect ::
  "(pystr \<Rightarrow> int counters) \<Rightarrow> (pystr \<Rightarrow> interval \<Rightarrow> int counters) \<Rightarrow> int counters \<Rightarrow>
   int stats \<Rightarrow> int stats \<Rightarrow> bool" where
  "effect a d t st st' \<longleftrightarrow>
     (\<forall>who. rel_sum (=) (grows (a who) (d who)) (get_person st who) (get_person st' who)) \<and>
     table_sum st' = cadd (table_sum st) t \<and>
     map fst st' = map fst st"

text \<open>The first occurrences of the elements of a list, in order.\<close>

definition first_seen :: "'a list \<Rightarrow> 'a list" where
  "first_seen xs = rev (remdups (rev xs))"

text \<open>One counters dict after the averaging pass.\<close>

definition averaged :: "int counters \<Rightarrow> pynum counters" where
  "averaged c =
     (if msgs_sent c > 0
      then with_avg c (PyFloat (of_int (avg_msg_len c) / of_int (msgs_sent c)))
      else untouched c)"

text \<open>
  The order of interval keys: hours by their number, strings lexicographically by code
  point; Python does not order an int and a string.
\<close>

fun key_less :: "interval \<Rightarrow> interval \<Rightarrow> bool" where
  "key_less (IntKey a) (IntKey b) = (a < b)"
| "key_less (StrKey s) (StrKey t) = (s < t)"
| "key_less (IntKey a) (StrKey t) = False"
| "key_less (StrKey s) (IntKey b) = False"

definition ascending :: "interval list \<Rightarrow> bool" where
  "ascending ks = sorted_wrt key_less ks"

text \<open>The actors of the reactions of a message, in order.\<close>

definition actors :: "msg \<Rightarrow> pystr list" where
  "actors m = map actor (get_list (msg_reactions m))"

text \<open>
  A participant's all-time \<open>msgs_sent\<close> is the sum of the \<open>msgs_sent\<close> of the
  participant's intervals; the sum of the all-time \<open>msgs_sent\<close> of all participants.
\<close>

definition totals_consistent :: "int pstats \<Rightarrow> bool" where
  "totals_consistent p \<longleftrightarrow> msgs_sent (general p) = (\<Sum>c\<leftarrow>map snd (ints p). msgs_sent c)"

definition total_msgs_sent :: "int stats \<Rightarrow> int" where
  "total_msgs_sent st =
     (\<Sum>(who, e)\<leftarrow>st. case e of Person p \<Rightarrow> msgs_sent (general p) | Intervals l \<Rightarrow> 0)"

text \<open>
  A name of the participants list other than \<open>'intervals'\<close>, and a message whose sender
  and reacting actors are all such names.
\<close>

definition declared :: "participant list \<Rightarrow> pystr \<Rightarrow> bool" where
  "declared ps who \<longleftrightarrow> who \<in> set (map name ps) \<and> who \<noteq> intervals_key"

definition well_formed :: "participant list \<Rightarrow> msg \<Rightarrow> bool" where
  "well_formed ps m \<longleftrightarrow>
     declared ps (sender_name m) \<and> list_all (declared ps) (actors m)"

text \<open>The text messages of a participant, and the lengths of their contents added up.\<close>

definition texts_of :: "pystr \<Rightarrow> msg list \<Rightarrow> msg list" where
  "texts_of who ms = filter (\<lambda>m. sender_name m = who \<and> truthy (content m)) ms"

definition total_length :: "msg list \<Rightarrow> int" where
  "total_length ms = (\<Sum>m\<leftarrow>ms. int (length (get_list (content m))))"

section \<open>Example conversations\<close>

text \<open>A message with a sender and a timestamp and no other key.\<close>

definition bare_msg :: "pystr \<Rightarrow> datetime \<Rightarrow> msg" where
  "bare_msg who stamp =
     \<lparr>sender_name = who, timestamp = stamp, content = None, photos = None, gifs = None,
      videos = None, msg_reactions = None, share = None\<rparr>"

definition text_msg :: "pystr \<Rightarrow> datetime \<Rightarrow> string \<Rightarrow> msg" where
  "text_msg who stamp s = (bare_msg who stamp)\<lparr>content := Some (ascii s)\<rparr>"

definition alice :: pystr where
  "alice = ascii ''Alice''"

definition bob :: pystr where
  "bob = ascii ''Bob''"

text \<open>A message of Alice without text, with one reaction by Bob.\<close>

definition reacted_msg :: msg where
  "reacted_msg =
     (bare_msg alice \<lparr>year = 2018, month = 8, hour = 14\<rparr>)
       \<lparr>msg_reactions := Some [\<lparr>actor = bob\<rparr>]\<rparr>"

text \<open>Two text messages of Alice, of 4 and 6 characters, in the same month.\<close>

definition two_texts :: "msg list" where
  "two_texts =
     [text_msg alice \<lparr>year = 2018, month = 8, hour = 14\<rparr> ''abcd'',
      text_msg alice \<lparr>year = 2018, month = 8, hour = 15\<rparr> ''abcdef'']"

text \<open>
  A message of Alice with three attachments under \<open>photos\<close> and two under \<open>gifs\<close>, and a
  small table in which Alice has an entry for hour 14.
\<close>

definition album_msg :: msg where
  "album_msg =
     (bare_msg alice \<lparr>year = 2018, month = 8, hour = 14\<rparr>)
       \<lparr>photos := Some [\<lparr>uri = ascii ''p/1.jpg''\<rparr>, \<lparr>uri = ascii ''p/2.gif''\<rparr>,
                        \<lparr>uri = ascii ''p/3.png''\<rparr>],
        gifs := Some [\<lparr>uri = ascii ''g/4.gif''\<rparr>, \<lparr>uri = ascii ''g/5.jpeg''\<rparr>]\<rparr>"

definition alice_table :: "int stats" where
  "alice_table =
     [(alice, Person \<lparr>general = create_stats_sub, ints = [(IntKey 14, create_stats_sub)]\<rparr>),
      (intervals_key, Intervals [IntKey 14])]"

section \<open>Strings and counting\<close>

lemma foldl_count: "foldl (\<lambda>a c. a + (if P c then 1 else 0)) a0 s = a0 + int (length (filter P s))"
  by (induction s arbitrary: a0) auto

lemma str_count_marker:
  "str_count [92, 117] s = length (filter (\<lambda>(a, b). a = 92 \<and> b = 117) (zip s (tl s)))"
proof (induction "[92::nat, 117]" s rule: str_count.induct)
  case (1 s)
  show ?case
  proof (cases s)
    case Nil
    then show ?thesis by (simp add: str_count.simps)
  next
    case (Cons c cs)
    show ?thesis
    proof (cases "prefix [92, 117] s")
      case True
      then obtain r where r: "s = 92 # 117 # r" by (auto simp: prefix_def)
      have "str_count [92, 117] s = Suc (str_count [92, 117] r)"
        using r by (subst str_count.simps) simp
      also have "str_count [92, 117] r = length (filter (\<lambda>(a, b). a = 92 \<and> b = 117) (zip r (tl r)))"
        using 1(1)[OF _ _ True] r by simp
      finally show ?thesis using r by (cases r) auto
    next
      case False
      have "str_count [92, 117] s = str_count [92, 117] cs"
        using False Cons by (subst str_count.simps) auto
      also have "\<dots> = length (filter (\<lambda>(a, b). a = 92 \<and> b = 117) (zip cs (tl cs)))"
        using 1(2)[OF _ _ False] Cons by simp
      finally show ?thesis using False Cons by (cases cs) (auto simp: prefix_def)
    qed
  qed
qed

lemma str_contains_sublist: "str_contains sub s \<longleftrightarrow> sublist sub s"
  by (induction s) (auto simp: sublist_Cons_right)

lemma count_photos_gifs_eq:
  "count_photos_gifs ps (a, b) =
     (a + int (length (filter (\<lambda>p. \<not> is_gif p) ps)), b + int (length (filter is_gif ps)))"
  by (induction ps arbitrary: a b) auto


section \<open>Sums of counters\<close>

lemma ebind_Inl [simp]: "ebind (Inl e) f = Inl e"
  by (simp add: ebind_def)

lemma ebind_Inr [simp]: "ebind (Inr x) f = f x"
  by (simp add: ebind_def)

lemma ebind_eq_Inr: "ebind m f = Inr y \<longleftrightarrow> (\<exists>x. m = Inr x \<and> f x = Inr y)"
  by (cases m) auto

lemma cadd_zero [simp]: "cadd c create_stats_sub = c" "cadd create_stats_sub c = c"
  by (simp_all add: cadd_def create_stats_sub_def)

lemma cadd_assoc: "cadd (cadd a b) c = cadd a (cadd b c)"
  by (simp add: cadd_def)

lemma cadd_commute: "cadd a b = cadd b a"
  by (simp add: cadd_def)

lemma cadd_left_commute: "cadd a (cadd b c) = cadd b (cadd a c)"
  by (simp add: cadd_def)

lemmas cadd_ac = cadd_assoc cadd_commute cadd_left_commute

lemma csum_append: "csum (xs @ ys) = cadd (csum xs) (csum ys)"
  by (induction xs) (simp_all add: cadd_assoc)

lemma csum_update_present:
  "map_of al k = Some v \<Longrightarrow>
   csum (map snd (AList.update k (cadd v x) al)) = cadd (csum (map snd al)) x"
  by (induction al) (auto simp: cadd_ac)

lemma csum_update_absent:
  "k \<notin> fst ` set al \<Longrightarrow> csum (map snd (AList.update k v al)) = cadd (csum (map snd al)) v"
  by (induction al) (auto simp: cadd_ac)

lemma keys_update_present:
  "k \<in> fst ` set al \<Longrightarrow> map fst (AList.update k v al) = map fst al"
  by (simp add: update_keys)

lemma map_of_present: "map_of al k = Some v \<Longrightarrow> k \<in> fst ` set al"
  by (metis domI dom_map_of_conv_image_fst)

lemma map_of_absent: "k \<notin> fst ` set al \<Longrightarrow> map_of al k = None"
  by (simp add: map_of_eq_None_iff)

section \<open>Lookups in an updated table\<close>

lemma get_person_update:
  "get_person (AList.update k (Person p) st) who = (if who = k then Inr p else get_person st who)"
  by (simp add: get_person_def update_conv')

lemma get_person_note:
  "get_intervals st = Inr seen \<Longrightarrow>
   get_person (AList.update intervals_key (Intervals l) st) who = get_person st who"
  by (auto simp: get_person_def get_intervals_def update_conv' split: option.splits entry.splits)

lemma get_intervals_update:
  "get_person st k = Inr p \<Longrightarrow> get_intervals (AList.update k (Person p') st) = get_intervals st"
  by (auto simp: get_person_def get_intervals_def update_conv' split: option.splits entry.splits)

lemma get_intervals_note:
  "get_intervals (AList.update intervals_key (Intervals l) st) = Inr l"
  by (simp add: get_intervals_def update_conv')

lemma get_person_present: "get_person st k = Inr p \<Longrightarrow> map_of st k = Some (Person p)"
  by (auto simp: get_person_def split: option.splits entry.splits)

lemma get_intervals_present: "get_intervals st = Inr l \<Longrightarrow> map_of st intervals_key = Some (Intervals l)"
  by (auto simp: get_intervals_def split: option.splits entry.splits)

lemma get_person_stats_update:
  "get_person_stats (p\<lparr>ints := AList.update iv c (ints p)\<rparr>) iv' =
     (if iv' = iv then c else get_person_stats p iv')"
  by (simp add: get_person_stats_def update_conv')

lemma get_person_stats_absent:
  "iv \<notin> fst ` set (ints p) \<Longrightarrow> get_person_stats p iv = create_stats_sub"
  by (simp add: get_person_stats_def map_of_absent)

lemma table_sum_update_person:
  "map_of st k = Some (Person p) \<Longrightarrow> general p' = cadd (general p) x \<Longrightarrow>
   table_sum (AList.update k (Person p') st) = cadd (table_sum st) x"
  unfolding table_sum_def by (induction st) (auto simp: cadd_ac)

lemma table_sum_update_intervals:
  "map_of st k = Some (Intervals l0) \<Longrightarrow>
   table_sum (AList.update k (Intervals l) st) = table_sum st"
  unfolding table_sum_def by (induction st) auto

section \<open>The effect of the handlers on the table\<close>

lemma grows_refl: "grows create_stats_sub (\<lambda>_. create_stats_sub) p p"
  by (simp add: grows_def)

lemma grows_trans:
  "grows x1 d1 p p1 \<Longrightarrow> grows x2 d2 p1 p2 \<Longrightarrow>
   grows (cadd x1 x2) (\<lambda>iv. cadd (d1 iv) (d2 iv)) p p2"
  unfolding grows_def by (simp add: cadd_assoc) blast

lemma effect_same:
  "effect (\<lambda>_. create_stats_sub) (\<lambda>_ _. create_stats_sub) create_stats_sub st st"
proof -
  have "rel_sum (=) (grows create_stats_sub (\<lambda>_. create_stats_sub))
          (get_person st who) (get_person st who)" for who
    by (cases "get_person st who") (simp_all add: grows_refl)
  then show ?thesis by (simp add: effect_def)
qed

lemma effect_cong:
  "effect a d t st st' \<Longrightarrow> (\<And>who. a' who = a who) \<Longrightarrow> (\<And>who iv. d' who iv = d who iv) \<Longrightarrow>
   t' = t \<Longrightarrow> effect a' d' t' st st'"
proof -
  assume e: "effect a d t st st'" and a: "\<And>who. a' who = a who"
    and d: "\<And>who iv. d' who iv = d who iv" and t: "t' = t"
  have "a' = a" by (rule ext) (rule a)
  moreover have "d' = d" by (rule ext, rule ext) (rule d)
  ultimately show ?thesis using e t by simp
qed

lemma effect_trans:
  assumes 1: "effect a1 d1 t1 st st1" and 2: "effect a2 d2 t2 st1 st2"
    and a: "\<And>who. a who = cadd (a1 who) (a2 who)"
    and d: "\<And>who iv. d who iv = cadd (d1 who iv) (d2 who iv)"
    and t: "t = cadd t1 t2"
  shows "effect a d t st st2"
proof -
  have "rel_sum (=) (grows (a who) (d who)) (get_person st who) (get_person st2 who)" for who
  proof -
    from 1 have r1: "rel_sum (=) (grows (a1 who) (d1 who)) (get_person st who) (get_person st1 who)"
      by (simp add: effect_def)
    from 2 have r2: "rel_sum (=) (grows (a2 who) (d2 who)) (get_person st1 who) (get_person st2 who)"
      by (simp add: effect_def)
    have dw: "d who = (\<lambda>iv. cadd (d1 who iv) (d2 who iv))"
      by (rule ext) (rule d)
    have "grows (a who) (d who) p p2" if "grows (a1 who) (d1 who) p p1" "grows (a2 who) (d2 who) p1 p2"
      for p p1 p2
      using grows_trans [OF that] by (simp add: a dw)
    with r1 r2 show ?thesis
      by (auto simp: rel_sum.simps)
  qed
  moreover from 1 2 have "table_sum st2 = cadd (table_sum st) t"
    by (simp add: effect_def t cadd_assoc)
  moreover from 1 2 have "map fst st2 = map fst st"
    by (simp add: effect_def)
  ultimately show ?thesis by (simp add: effect_def)
qed

lemma effect_update:
  assumes p: "get_person st k = Inr p" and g: "grows x dk p p'"
  shows "effect (\<lambda>who. if who = k then x else create_stats_sub)
           (\<lambda>who iv. if who = k then dk iv else create_stats_sub) x
           st (AList.update k (Person p') st)"
proof -
  let ?st' = "AList.update k (Person p') st"
  have "rel_sum (=) (grows (if who = k then x else create_stats_sub)
            (\<lambda>iv. if who = k then dk iv else create_stats_sub))
          (get_person st who) (get_person ?st' who)" for who
  proof (cases "who = k")
    case True
    with p g show ?thesis by (simp add: get_person_update)
  next
    case False
    then show ?thesis
      by (cases "get_person st who") (simp_all add: get_person_update grows_refl)
  qed
  moreover have "table_sum ?st' = cadd (table_sum st) x"
    using get_person_present [OF p] g by (simp add: table_sum_update_person grows_def)
  moreover have "map fst ?st' = map fst st"
    using get_person_present [OF p] by (simp add: keys_update_present map_of_present)
  ultimately show ?thesis by (simp add: effect_def)
qed

lemma effect_note:
  assumes "note_interval st iv = Inr st'"
  shows "effect (\<lambda>_. create_stats_sub) (\<lambda>_ _. create_stats_sub) create_stats_sub st st'"
proof -
  from assms obtain seen where seen: "get_intervals st = Inr seen"
    and st': "st' = (if iv \<notin> set seen
                     then AList.update intervals_key (Intervals (seen @ [iv])) st else st)"
    by (auto simp: note_interval_def ebind_eq_Inr)
  show ?thesis
  proof (cases "iv \<in> set seen")
    case True
    with st' show ?thesis by (simp add: effect_same)
  next
    case False
    have "rel_sum (=) (grows create_stats_sub (\<lambda>_. create_stats_sub))
            (get_person st who) (get_person st' who)" for who
      using False st' by (cases "get_person st who") (simp_all add: get_person_note [OF seen] grows_refl)
    moreover have "table_sum st' = table_sum st"
      using False st' get_intervals_present [OF seen] by (simp add: table_sum_update_intervals)
    moreover have "map fst st' = map fst st"
      using False st' get_intervals_present [OF seen]
      by (simp add: keys_update_present map_of_present)
    ultimately show ?thesis by (simp add: effect_def)
  qed
qed

lemma effect_ensure:
  assumes "ensure_interval st k iv = Inr st'"
  shows "effect (\<lambda>_. create_stats_sub) (\<lambda>_ _. create_stats_sub) create_stats_sub st st'"
proof -
  from assms obtain p where p: "get_person st k = Inr p"
    and st': "st' = (if iv \<notin> set (map fst (ints p))
            then AList.update k (Person (p\<lparr>ints := AList.update iv create_stats_sub (ints p)\<rparr>)) st
            else st)"
    by (auto simp: ensure_interval_def ebind_eq_Inr)
  show ?thesis
  proof (cases "iv \<in> set (map fst (ints p))")
    case True
    with st' show ?thesis by (simp add: effect_same)
  next
    case False
    then have absent: "iv \<notin> fst ` set (ints p)" by simp
    let ?p' = "p\<lparr>ints := AList.update iv create_stats_sub (ints p)\<rparr>"
    have "grows create_stats_sub (\<lambda>_. create_stats_sub) p ?p'"
      using absent
      by (auto simp: grows_def get_person_stats_update get_person_stats_absent interval_sum_def
          csum_update_absent update_keys distinct_update)
    from effect_update [OF p this] False st' show ?thesis
      by (auto intro: effect_cong)
  qed
qed

lemma effect_increment:
  assumes "increment st k iv f = Inr st'" and f: "\<And>c. f c = cadd c x"
  shows "effect (\<lambda>who. if k = who then x else create_stats_sub)
           (\<lambda>who iv'. if iv' = iv then (if k = who then x else create_stats_sub)
                       else create_stats_sub) x st st'"
proof -
  from assms(1) obtain p c where p: "get_person st k = Inr p"
    and c: "map_of (ints p) iv = Some c"
    and st': "st' = AList.update k
                  (Person \<lparr>general = f (general p), ints = AList.update iv (f c) (ints p)\<rparr>) st"
    by (auto simp: increment_def ebind_eq_Inr split: option.splits)
  let ?p' = "\<lparr>general = f (general p), ints = AList.update iv (f c) (ints p)\<rparr>"
  have "grows x (\<lambda>iv'. if iv' = iv then x else create_stats_sub) p ?p'"
    using c map_of_present [OF c]
    by (auto simp: grows_def f get_person_stats_def update_conv' interval_sum_def
        csum_update_present keys_update_present distinct_update)
  from effect_update [OF p this] st' show ?thesis
    by (auto intro: effect_cong)
qed

lemma effect_trans_at:
  assumes "effect a1 (\<lambda>who iv'. if iv' = iv then a1 who else create_stats_sub) t1 st st1"
    and "effect a2 (\<lambda>who iv'. if iv' = iv then a2 who else create_stats_sub) t2 st1 st2"
    and "\<And>who. a who = cadd (a1 who) (a2 who)" and "t = cadd t1 t2"
  shows "effect a (\<lambda>who iv'. if iv' = iv then a who else create_stats_sub) t st st2"
  by (rule effect_trans [OF assms(1,2)]) (simp_all add: assms(3,4))

lemma effect_skip:
  assumes "\<And>who. a who = create_stats_sub" and "t = create_stats_sub"
  shows "effect a (\<lambda>who iv'. if iv' = iv then a who else create_stats_sub) t st st"
  by (rule effect_cong [OF effect_same]) (simp_all add: assms)

lemma effect_at:
  "effect (\<lambda>_. create_stats_sub) (\<lambda>_ _. create_stats_sub) create_stats_sub st st' \<Longrightarrow>
   effect (\<lambda>_. create_stats_sub) (\<lambda>who iv'. if iv' = iv then create_stats_sub else create_stats_sub)
     create_stats_sub st st'"
  by (erule effect_cong) simp_all

lemma count_emoji_Nil [simp]: "count_emoji K [] = 0"
  by (simp add: count_emoji_def str_count.simps)

lemma effect_handle_reaction:
  assumes "handle_reaction st iv rs = Inr st'"
  shows "effect (\<lambda>who. if actor rs = who then create_stats_sub\<lparr>reactions := 1\<rparr> else create_stats_sub)
     (\<lambda>who iv'. if iv' = iv
        then (if actor rs = who then create_stats_sub\<lparr>reactions := 1\<rparr> else create_stats_sub)
        else create_stats_sub) (create_stats_sub\<lparr>reactions := 1\<rparr>) st st'"
proof -
  from assms obtain s1 where 1: "ensure_interval st (actor rs) iv = Inr s1"
    and 2: "increment s1 (actor rs) iv (\<lambda>c. c\<lparr>reactions := reactions c + 1\<rparr>) = Inr st'"
    by (auto simp: handle_reaction_def ebind_eq_Inr)
  have f: "\<And>c::int counters. c\<lparr>reactions := reactions c + 1\<rparr> = cadd c (create_stats_sub\<lparr>reactions := 1\<rparr>)"
    by (simp add: cadd_def create_stats_sub_def)
  show ?thesis
    by (rule effect_trans_at [OF effect_at [OF effect_ensure [OF 1]] effect_increment [OF 2 f]])
       simp_all
qed

lemma effect_reactions_loop:
  "handle_reactions_loop st iv rss = Inr st' \<Longrightarrow>
   effect (\<lambda>who. create_stats_sub\<lparr>reactions := int (count_list (map actor rss) who)\<rparr>)
     (\<lambda>who iv'. if iv' = iv
        then create_stats_sub\<lparr>reactions := int (count_list (map actor rss) who)\<rparr>
        else create_stats_sub)
     (create_stats_sub\<lparr>reactions := int (length rss)\<rparr>) st st'"
proof (induction rss arbitrary: st)
  case Nil
  then have "st' = st" by simp
  show ?case
    unfolding \<open>st' = st\<close>
    by (rule effect_cong [OF effect_same]) (simp_all add: create_stats_sub_def)
next
  case (Cons rs rest)
  from Cons.prems obtain s1 where 1: "handle_reaction st iv rs = Inr s1"
    and 2: "handle_reactions_loop s1 iv rest = Inr st'"
    by (auto simp: ebind_eq_Inr)
  show ?case
    by (rule effect_trans_at [OF effect_handle_reaction [OF 1] Cons.IH [OF 2]])
       (simp_all add: cadd_def create_stats_sub_def)
qed

lemma stage_content:
  assumes "(if truthy (content m) then handle_content K st iv m else Inr st) = Inr st'"
  shows "effect (\<lambda>who. if sender_name m = who then sent_content K m else create_stats_sub)
           (\<lambda>who iv'. if iv' = iv
              then (if sender_name m = who then sent_content K m else create_stats_sub)
              else create_stats_sub) (sent_content K m) st st'"
proof (cases "truthy (content m)")
  case True
  then obtain t where t: "content m = Some t" "t \<noteq> []"
    by (auto simp: truthy_def split: option.splits)
  with assms True have inc: "increment st (sender_name m) iv
      (\<lambda>c. c\<lparr>msgs_sent := msgs_sent c + 1, avg_msg_len := avg_msg_len c + int (length t),
             emojis_sent := emojis_sent c + count_emoji K t\<rparr>) = Inr st'"
    by (simp add: handle_content_def)
  show ?thesis
    by (rule effect_increment [OF inc])
       (simp add: cadd_def sent_content_def create_stats_sub_def t truthy_def get_list_def)
next
  case False
  then have z: "sent_content K m = create_stats_sub"
    by (auto simp: sent_content_def truthy_def get_list_def create_stats_sub_def split: option.splits)
  from False assms have "st' = st" by simp
  then show ?thesis
    by (simp add: z effect_skip)
qed

lemma stage_photos:
  assumes "(if truthy (photos m) \<or> truthy (gifs m) then handle_photos_and_gifs st iv m else Inr st)
            = Inr st'"
  shows "effect (\<lambda>who. if sender_name m = who then sent_photos m else create_stats_sub)
           (\<lambda>who iv'. if iv' = iv
              then (if sender_name m = who then sent_photos m else create_stats_sub)
              else create_stats_sub) (sent_photos m) st st'"
proof (cases "truthy (photos m) \<or> truthy (gifs m)")
  case True
  with assms have inc: "increment st (sender_name m) iv
      (\<lambda>c. c\<lparr>photos_sent := photos_sent c +
                 int (length (filter (\<lambda>p. \<not> is_gif p) (get_list (photos m) @ get_list (gifs m)))),
             gifs_sent := gifs_sent c +
                 int (length (filter is_gif (get_list (photos m) @ get_list (gifs m))))\<rparr>) = Inr st'"
    by (simp add: handle_photos_and_gifs_def count_photos_gifs_eq)
  show ?thesis
    by (rule effect_increment [OF inc])
       (simp add: cadd_def sent_photos_def create_stats_sub_def)
next
  case False
  then have z: "sent_photos m = create_stats_sub"
    by (auto simp: sent_photos_def truthy_def get_list_def create_stats_sub_def split: option.splits)
  from False assms have "st' = st" by simp
  then show ?thesis
    by (simp add: z effect_skip)
qed

lemma stage_videos:
  assumes "(if truthy (videos m) then handle_videos st iv m else Inr st) = Inr st'"
  shows "effect (\<lambda>who. if sender_name m = who then sent_videos m else create_stats_sub)
           (\<lambda>who iv'. if iv' = iv
              then (if sender_name m = who then sent_videos m else create_stats_sub)
              else create_stats_sub) (sent_videos m) st st'"
proof (cases "truthy (videos m)")
  case True
  then obtain vs where vs: "videos m = Some vs"
    by (auto simp: truthy_def split: option.splits)
  with assms True have inc: "increment st (sender_name m) iv
      (\<lambda>c. c\<lparr>vids_sent := vids_sent c + int (length vs)\<rparr>) = Inr st'"
    by (auto simp: handle_videos_def ebind_eq_Inr)
  show ?thesis
    by (rule effect_increment [OF inc])
       (simp add: cadd_def sent_videos_def create_stats_sub_def vs get_list_def)
next
  case False
  then have z: "sent_videos m = create_stats_sub"
    by (auto simp: sent_videos_def truthy_def get_list_def create_stats_sub_def split: option.splits)
  from False assms have "st' = st" by simp
  then show ?thesis
    by (simp add: z effect_skip)
qed

lemma stage_links:
  assumes "(if truthy (share m) then handle_links st iv m else Inr st) = Inr st'"
  shows "effect (\<lambda>who. if sender_name m = who then sent_links m else create_stats_sub)
           (\<lambda>who iv'. if iv' = iv
              then (if sender_name m = who then sent_links m else create_stats_sub)
              else create_stats_sub) (sent_links m) st st'"
proof (cases "truthy (share m)")
  case True
  with assms have inc: "increment st (sender_name m) iv
      (\<lambda>c. c\<lparr>links_sent := links_sent c + 1\<rparr>) = Inr st'"
    by (simp add: handle_links_def)
  show ?thesis
    by (rule effect_increment [OF inc])
       (simp add: cadd_def sent_links_def create_stats_sub_def True)
next
  case False
  then have z: "sent_links m = create_stats_sub"
    by (auto simp: sent_links_def create_stats_sub_def)
  from False assms have "st' = st" by simp
  then show ?thesis
    by (simp add: z effect_skip)
qed

lemma stage_reactions:
  assumes "(if truthy (msg_reactions m) then handle_reactions st iv m else Inr st) = Inr st'"
  shows "effect (received m)
           (\<lambda>who iv'. if iv' = iv then received m who else create_stats_sub)
           (create_stats_sub\<lparr>reactions := int (length (get_list (msg_reactions m)))\<rparr>) st st'"
proof (cases "truthy (msg_reactions m)")
  case True
  then obtain rss where rss: "msg_reactions m = Some rss"
    by (auto simp: truthy_def split: option.splits)
  with assms True have "handle_reactions_loop st iv rss = Inr st'"
    by (simp add: handle_reactions_def)
  from effect_reactions_loop [OF this] show ?thesis
    by (rule effect_cong) (simp_all add: received_def rss get_list_def)
next
  case False
  then have z: "get_list (msg_reactions m) = []"
    by (auto simp: truthy_def get_list_def split: option.splits)
  from False assms have "st' = st" by simp
  then show ?thesis
    by (simp add: effect_skip received_def z create_stats_sub_def)
qed

lemma effect_analyze_step:
  assumes "analyze_step K args st m = Inr st'"
  shows "effect (contribution K m)
           (\<lambda>who iv. if iv = get_correct_interval (timestamp m) args
                      then contribution K m who else create_stats_sub) (added K m) st st'"
proof -
  define iv where "iv = get_correct_interval (timestamp m) args"
  from assms obtain s1 s2 s3 s4 s5 s6 where
    1: "note_interval st iv = Inr s1" and
    2: "ensure_interval s1 (sender_name m) iv = Inr s2" and
    3: "(if truthy (content m) then handle_content K s2 iv m else Inr s2) = Inr s3" and
    4: "(if truthy (photos m) \<or> truthy (gifs m) then handle_photos_and_gifs s3 iv m else Inr s3)
          = Inr s4" and
    5: "(if truthy (videos m) then handle_videos s4 iv m else Inr s4) = Inr s5" and
    6: "(if truthy (msg_reactions m) then handle_reactions s5 iv m else Inr s5) = Inr s6" and
    7: "(if truthy (share m) then handle_links s6 iv m else Inr s6) = Inr st'"
    unfolding analyze_step_def Let_def iv_def [symmetric] ebind_eq_Inr by blast
  note e = effect_trans_at [OF effect_at [OF effect_note [OF 1]]
    effect_trans_at [OF effect_at [OF effect_ensure [OF 2]]
    effect_trans_at [OF stage_content [OF 3]
    effect_trans_at [OF stage_photos [OF 4] effect_trans_at [OF stage_videos [OF 5]
    effect_trans_at [OF stage_reactions [OF 6] stage_links [OF 7]]]]]],
    OF refl refl refl refl refl refl refl refl refl refl]
  have "effect (contribution K m)
           (\<lambda>who iv'. if iv' = iv then contribution K m who else create_stats_sub) (added K m) st st'"
    by (rule e) (simp_all add: contribution_def added_def sent_def cadd_def create_stats_sub_def received_def)
  then show ?thesis by (simp add: iv_def)
qed

lemma effect_analyze_loop:
  "analyze_loop K args st ms = Inr st' \<Longrightarrow>
   effect (tally K ms) (\<lambda>who iv. tally K (in_interval args iv ms) who)
     (csum (map (added K) ms)) st st'"
proof (induction ms arbitrary: st)
  case Nil
  then have "st' = st" by simp
  then show ?case
    by (simp add: tally_def in_interval_def effect_same)
next
  case (Cons m ms)
  from Cons.prems obtain s1 where 1: "analyze_step K args st m = Inr s1"
    and 2: "analyze_loop K args s1 ms = Inr st'"
    by (auto simp: ebind_eq_Inr)
  show ?case
    by (rule effect_trans [OF effect_analyze_step [OF 1] Cons.IH [OF 2]])
       (simp_all add: tally_def in_interval_def)
qed

section \<open>Participants stay, errors stay\<close>

lemma effect_person:
  assumes "effect a d t st st'" and "get_person st who = Inr p"
  obtains p' where "get_person st' who = Inr p'" and "grows (a who) (d who) p p'"
proof -
  from assms have "rel_sum (=) (grows (a who) (d who)) (Inr p) (get_person st' who)"
    by (auto simp: effect_def dest: spec [of _ who])
  then show thesis
    by (cases "get_person st' who") (auto intro: that)
qed

lemma effect_person_rev:
  assumes "effect a d t st st'" and "get_person st' who = Inr p'"
  obtains p where "get_person st who = Inr p" and "grows (a who) (d who) p p'"
proof -
  from assms have "rel_sum (=) (grows (a who) (d who)) (get_person st who) (Inr p')"
    by (auto simp: effect_def dest: spec [of _ who])
  then show thesis
    by (cases "get_person st who") (auto intro: that)
qed

lemma effect_error:
  assumes "effect a d t st st'" and "get_person st who = Inl e"
  shows "get_person st' who = Inl e"
proof -
  from assms have "rel_sum (=) (grows (a who) (d who)) (Inl e) (get_person st' who)"
    by (auto simp: effect_def dest: spec [of _ who])
  then show ?thesis
    by (cases "get_person st' who") auto
qed

lemma effect_ready:
  assumes "effect a d t st st'" and "get_person st who = Inr p" and "iv \<in> fst ` set (ints p)"
  shows "\<exists>p'. get_person st' who = Inr p' \<and> iv \<in> fst ` set (ints p')"
proof -
  from assms(1,2) obtain p' where "get_person st' who = Inr p'" "grows (a who) (d who) p p'"
    by (rule effect_person)
  with assms(3) show ?thesis by (auto simp: grows_def)
qed

section \<open>The list of intervals\<close>

lemma increment_intervals:
  "increment st k iv f = Inr st' \<Longrightarrow> get_intervals st' = get_intervals st"
  by (auto simp: increment_def ebind_eq_Inr get_intervals_update split: option.splits)

lemma ensure_intervals:
  "ensure_interval st k iv = Inr st' \<Longrightarrow> get_intervals st' = get_intervals st"
  by (auto simp: ensure_interval_def ebind_eq_Inr get_intervals_update split: if_splits)

lemma reactions_loop_intervals:
  "handle_reactions_loop st iv rss = Inr st' \<Longrightarrow> get_intervals st' = get_intervals st"
proof (induction rss arbitrary: st)
  case Nil
  then show ?case by simp
next
  case (Cons rs rest)
  from Cons.prems obtain s1 s2 where "ensure_interval st (actor rs) iv = Inr s1"
    and "increment s1 (actor rs) iv (\<lambda>c. c\<lparr>reactions := reactions c + 1\<rparr>) = Inr s2"
    and "handle_reactions_loop s2 iv rest = Inr st'"
    by (auto simp: ebind_eq_Inr handle_reaction_def)
  then show ?case
    using Cons.IH [of s2] by (simp add: ensure_intervals increment_intervals)
qed

lemma handlers_intervals:
  "(if truthy (content m) then handle_content K st iv m else Inr st) = Inr st' \<Longrightarrow>
     get_intervals st' = get_intervals st"
  "(if truthy (photos m) \<or> truthy (gifs m) then handle_photos_and_gifs st iv m else Inr st) = Inr st'
     \<Longrightarrow> get_intervals st' = get_intervals st"
  "(if truthy (videos m) then handle_videos st iv m else Inr st) = Inr st' \<Longrightarrow>
     get_intervals st' = get_intervals st"
  "(if truthy (msg_reactions m) then handle_reactions st iv m else Inr st) = Inr st' \<Longrightarrow>
     get_intervals st' = get_intervals st"
  "(if truthy (share m) then handle_links st iv m else Inr st) = Inr st' \<Longrightarrow>
     get_intervals st' = get_intervals st"
  by (auto simp: handle_content_def handle_photos_and_gifs_def handle_videos_def
      handle_reactions_def handle_links_def increment_intervals reactions_loop_intervals
      ebind_eq_Inr split: if_splits option.splits prod.splits)

lemma note_intervals:
  "note_interval st iv = Inr st' \<Longrightarrow> get_intervals st = Inr seen \<Longrightarrow>
   get_intervals st' = Inr (if iv \<in> set seen then seen else seen @ [iv])"
  by (auto simp: note_interval_def get_intervals_note)

lemma analyze_step_intervals:
  assumes "analyze_step K args st m = Inr st'" and "get_intervals st = Inr seen"
  shows "get_intervals st' =
     Inr (if get_correct_interval (timestamp m) args \<in> set seen then seen
          else seen @ [get_correct_interval (timestamp m) args])"
proof -
  define iv where "iv = get_correct_interval (timestamp m) args"
  from assms obtain s1 s2 s3 s4 s5 s6 where
    1: "note_interval st iv = Inr s1" and
    2: "ensure_interval s1 (sender_name m) iv = Inr s2" and
    3: "(if truthy (content m) then handle_content K s2 iv m else Inr s2) = Inr s3" and
    4: "(if truthy (photos m) \<or> truthy (gifs m) then handle_photos_and_gifs s3 iv m else Inr s3)
          = Inr s4" and
    5: "(if truthy (videos m) then handle_videos s4 iv m else Inr s4) = Inr s5" and
    6: "(if truthy (msg_reactions m) then handle_reactions s5 iv m else Inr s5) = Inr s6" and
    7: "(if truthy (share m) then handle_links s6 iv m else Inr s6) = Inr st'"
    unfolding analyze_step_def Let_def iv_def [symmetric] ebind_eq_Inr by blast
  have "get_intervals st' = get_intervals s1"
    using handlers_intervals(1) [OF 3] handlers_intervals(2) [OF 4] handlers_intervals(3) [OF 5]
      handlers_intervals(4) [OF 6] handlers_intervals(5) [OF 7] ensure_intervals [OF 2]
    by simp
  with note_intervals [OF 1 assms(2)] show ?thesis
    by (simp add: iv_def)
qed

lemma analyze_loop_intervals:
  "analyze_loop K args st ms = Inr st' \<Longrightarrow> get_intervals st = Inr seen \<Longrightarrow>
   get_intervals st' =
     Inr (fold (\<lambda>k l. if k \<in> set l then l else l @ [k])
            (map (\<lambda>m. get_correct_interval (timestamp m) args) ms) seen)"
proof (induction ms arbitrary: st seen)
  case Nil
  then show ?case by simp
next
  case (Cons m ms)
  from Cons.prems(1) obtain s1 where 1: "analyze_step K args st m = Inr s1"
    and 2: "analyze_loop K args s1 ms = Inr st'"
    by (auto simp: ebind_eq_Inr)
  from Cons.IH [OF 2 analyze_step_intervals [OF 1 Cons.prems(2)]] show ?case
    by simp
qed

lemma remdups_snoc: "remdups (xs @ [k]) = filter (\<lambda>x. x \<noteq> k) (remdups xs) @ [k]"
  by (induction xs) auto

lemma first_seen_Cons: "first_seen (k # ks) = k # filter (\<lambda>x. x \<noteq> k) (first_seen ks)"
  by (simp add: first_seen_def remdups_snoc rev_filter)

lemma fold_first_seen:
  "fold (\<lambda>k l. if k \<in> set l then l else l @ [k]) ks l =
     l @ filter (\<lambda>x. x \<notin> set l) (first_seen ks)"
proof (induction ks arbitrary: l)
  case Nil
  then show ?case by (simp add: first_seen_def)
next
  case (Cons k ks)
  have "filter (\<lambda>x. x \<notin> set l) (filter (\<lambda>x. x \<noteq> k) (first_seen ks)) =
        filter (\<lambda>x. x \<notin> set l) (first_seen ks)" if "k \<in> set l"
    using that by (auto intro: filter_cong)
  moreover have "filter (\<lambda>x. x \<notin> set (l @ [k])) (first_seen ks) =
        filter (\<lambda>x. x \<notin> set l) (filter (\<lambda>x. x \<noteq> k) (first_seen ks))"
    by (auto intro: filter_cong)
  ultimately show ?case
    by (simp add: Cons.IH first_seen_Cons)
qed

lemma first_seen_distinct: "distinct (first_seen xs)"
  by (simp add: first_seen_def)

lemma first_seen_set: "set (first_seen xs) = set xs"
  by (simp add: first_seen_def)

section \<open>When a step returns and when it raises\<close>

lemma increment_ok:
  "get_person st k = Inr p \<Longrightarrow> iv \<in> fst ` set (ints p) \<Longrightarrow> \<exists>st'. increment st k iv f = Inr st'"
  by (cases "map_of (ints p) iv") (auto simp: increment_def map_of_eq_None_iff)

lemma key_in_update: "k \<in> fst ` set (AList.update k v al)"
  by (induction al) auto

lemma ensure_ok:
  assumes "get_person st k = Inr p"
  shows "\<exists>st' p'. ensure_interval st k iv = Inr st' \<and> get_person st' k = Inr p' \<and>
           iv \<in> fst ` set (ints p')"
proof (cases "iv \<in> set (map fst (ints p))")
  case True
  with assms show ?thesis by (auto simp: ensure_interval_def)
next
  case False
  with assms show ?thesis
    by (simp add: ensure_interval_def get_person_update key_in_update)
qed

lemma ensure_fail: "get_person st k = Inl e \<Longrightarrow> ensure_interval st k iv = Inl e"
  by (simp add: ensure_interval_def)

lemma handle_reaction_ok:
  assumes "get_person st (actor rs) = Inr p"
  shows "\<exists>st'. handle_reaction st iv rs = Inr st'"
proof -
  from ensure_ok [OF assms] obtain s1 p1 where "ensure_interval st (actor rs) iv = Inr s1"
    and "get_person s1 (actor rs) = Inr p1" and "iv \<in> fst ` set (ints p1)"
    by blast
  with increment_ok [of s1 "actor rs" p1 iv] show ?thesis
    by (auto simp: handle_reaction_def)
qed

lemma handle_reaction_fail:
  "get_person st (actor rs) = Inl e \<Longrightarrow> handle_reaction st iv rs = Inl e"
  by (simp add: handle_reaction_def ensure_fail)

lemma reactions_loop_ok:
  "list_all (\<lambda>a. \<exists>p. get_person st a = Inr p) (map actor rss) \<Longrightarrow>
   \<exists>st'. handle_reactions_loop st iv rss = Inr st'"
proof (induction rss arbitrary: st)
  case Nil
  then show ?case by simp
next
  case (Cons rs rest)
  from Cons.prems obtain p where "get_person st (actor rs) = Inr p" by auto
  from handle_reaction_ok [OF this] obtain s1 where 1: "handle_reaction st iv rs = Inr s1"
    by blast
  have "list_all (\<lambda>a. \<exists>p. get_person s1 a = Inr p) (map actor rest)"
    using Cons.prems effect_person [OF effect_handle_reaction [OF 1]]
    by (auto simp: list_all_iff) metis
  from Cons.IH [OF this] 1 show ?case by auto
qed

lemma reactions_loop_fail:
  "\<not> list_all (\<lambda>a. \<exists>p. get_person st a = Inr p) (map actor rss) \<Longrightarrow>
   \<exists>a e. a \<in> set (map actor rss) \<and> get_person st a = Inl e \<and>
         handle_reactions_loop st iv rss = Inl e"
proof (induction rss arbitrary: st)
  case Nil
  then show ?case by simp
next
  case (Cons rs rest)
  show ?case
  proof (cases "get_person st (actor rs)")
    case (Inl e)
    then show ?thesis
      by (auto simp: handle_reaction_fail)
  next
    case (Inr p)
    from handle_reaction_ok [OF this] obtain s1 where 1: "handle_reaction st iv rs = Inr s1"
      by blast
    note e = effect_handle_reaction [OF 1]
    have same: "(\<exists>p. get_person s1 a = Inr p) \<longleftrightarrow> (\<exists>p. get_person st a = Inr p)" for a
      using effect_person [OF e] effect_person_rev [OF e] by metis
    from Cons.prems Inr have "\<not> list_all (\<lambda>a. \<exists>p. get_person s1 a = Inr p) (map actor rest)"
      by (simp add: same)
    from Cons.IH [OF this] obtain a e' where a: "a \<in> set (map actor rest)"
      and "get_person s1 a = Inl e'" and l: "handle_reactions_loop s1 iv rest = Inl e'"
      by blast
    then have "get_person st a = Inl e'"
    proof (cases "get_person st a")
      case (Inl e0)
      with effect_error [OF e Inl] \<open>get_person s1 a = Inl e'\<close> show ?thesis by simp
    next
      case (Inr p0)
      with effect_person [OF e Inr] \<open>get_person s1 a = Inl e'\<close> show ?thesis by auto
    qed
    with a l 1 show ?thesis by auto
  qed
qed

lemma stage_ok:
  assumes "get_person st (sender_name m) = Inr p" and "iv \<in> fst ` set (ints p)"
  shows "\<exists>st'. (if truthy (content m) then handle_content K st iv m else Inr st) = Inr st'"
    and "\<exists>st'. (if truthy (photos m) \<or> truthy (gifs m) then handle_photos_and_gifs st iv m
                else Inr st) = Inr st'"
    and "\<exists>st'. (if truthy (videos m) then handle_videos st iv m else Inr st) = Inr st'"
    and "\<exists>st'. (if truthy (share m) then handle_links st iv m else Inr st) = Inr st'"
  using increment_ok [OF assms] assms(1)
  by (auto simp: handle_content_def handle_photos_and_gifs_def handle_videos_def handle_links_def
      truthy_def split: option.splits prod.splits)

lemma effect_error_rev:
  assumes "effect a d t st st'" and "get_person st' who = Inl e"
  shows "get_person st who = Inl e"
proof (cases "get_person st who")
  case (Inl e0)
  with effect_error [OF assms(1) Inl] assms(2) show ?thesis by simp
next
  case (Inr p)
  with effect_person [OF assms(1) Inr] assms(2) show ?thesis by auto
qed

lemma effect_people:
  assumes "effect a d t st st'"
  shows "(\<exists>p. get_person st' who = Inr p) \<longleftrightarrow> (\<exists>p. get_person st who = Inr p)"
  using effect_person [OF assms] effect_person_rev [OF assms] by metis

lemma note_ok: "get_intervals st = Inr seen \<Longrightarrow> \<exists>st'. note_interval st iv = Inr st'"
  by (simp add: note_interval_def)

text \<open>
  Up to the reactions, a step cannot raise once the sender is a participant; at that
  point the participants are those of the start and the sender has an entry for the
  interval.
\<close>

lemma analyze_step_prefix:
  assumes gi: "get_intervals st = Inr seen" and sp: "get_person st (sender_name m) = Inr p"
    and iv: "iv = get_correct_interval (timestamp m) args"
  shows "\<exists>s5 p5. (\<forall>who e. get_person s5 who = Inl e \<longleftrightarrow> get_person st who = Inl e) \<and>
     get_person s5 (sender_name m) = Inr p5 \<and> iv \<in> fst ` set (ints p5) \<and>
     analyze_step K args st m =
       ebind (if truthy (msg_reactions m) then handle_reactions s5 iv m else Inr s5)
         (\<lambda>s6. if truthy (share m) then handle_links s6 iv m else Inr s6)"
proof -
  from note_ok [OF gi] obtain s1 where 1: "note_interval st iv = Inr s1" by blast
  note e1 = effect_note [OF 1]
  from effect_person [OF e1 sp] obtain p1 where p1: "get_person s1 (sender_name m) = Inr p1"
    by blast
  from ensure_ok [OF p1] obtain s2 p2 where 2: "ensure_interval s1 (sender_name m) iv = Inr s2"
    and p2: "get_person s2 (sender_name m) = Inr p2" "iv \<in> fst ` set (ints p2)"
    by blast
  note e2 = effect_ensure [OF 2]
  from stage_ok(1) [OF p2] obtain s3 where
    3: "(if truthy (content m) then handle_content K s2 iv m else Inr s2) = Inr s3"
    by blast
  note e3 = stage_content [OF 3]
  from effect_ready [OF e3 p2] obtain p3 where
    p3: "get_person s3 (sender_name m) = Inr p3" "iv \<in> fst ` set (ints p3)"
    by blast
  from stage_ok(2) [OF p3] obtain s4 where
    4: "(if truthy (photos m) \<or> truthy (gifs m) then handle_photos_and_gifs s3 iv m else Inr s3)
          = Inr s4"
    by blast
  note e4 = stage_photos [OF 4]
  from effect_ready [OF e4 p3] obtain p4 where
    p4: "get_person s4 (sender_name m) = Inr p4" "iv \<in> fst ` set (ints p4)"
    by blast
  from stage_ok(3) [OF p4] obtain s5 where
    5: "(if truthy (videos m) then handle_videos s4 iv m else Inr s4) = Inr s5"
    by blast
  note e5 = stage_videos [OF 5]
  from effect_ready [OF e5 p4] obtain p5 where
    p5: "get_person s5 (sender_name m) = Inr p5" "iv \<in> fst ` set (ints p5)"
    by blast
  have "get_person s5 who = Inl e \<longleftrightarrow> get_person st who = Inl e" for who e
  proof
    assume "get_person s5 who = Inl e"
    then show "get_person st who = Inl e"
      by (intro effect_error_rev [OF e1] effect_error_rev [OF e2] effect_error_rev [OF e3]
          effect_error_rev [OF e4] effect_error_rev [OF e5])
  next
    assume "get_person st who = Inl e"
    then show "get_person s5 who = Inl e"
      by (intro effect_error [OF e5] effect_error [OF e4] effect_error [OF e3]
          effect_error [OF e2] effect_error [OF e1])
  qed
  moreover have "analyze_step K args st m =
           ebind (if truthy (msg_reactions m) then handle_reactions s5 iv m else Inr s5)
             (\<lambda>s6. if truthy (share m) then handle_links s6 iv m else Inr s6)"
    unfolding analyze_step_def Let_def iv [symmetric]
    by (simp only: 1 2 3 4 5 ebind_Inr)
  ultimately show ?thesis
    using p5 by blast
qed

lemma same_errors_people:
  assumes "\<And>who e. get_person s5 who = Inl e \<longleftrightarrow> get_person st who = Inl e"
  shows "(\<exists>p. get_person s5 who = Inr p) \<longleftrightarrow> (\<exists>p. get_person st who = Inr p)"
proof -
  show ?thesis
  proof (cases "get_person st who")
    case (Inl e)
    with assms [of who e] show ?thesis by simp
  next
    case (Inr q)
    show ?thesis
    proof (cases "get_person s5 who")
      case (Inl e)
      with assms [of who e] Inr show ?thesis by simp
    next
      case (Inr q5)
      with \<open>get_person st who = Inr q\<close> show ?thesis by simp
    qed
  qed
qed

lemma stage_reactions_ok:
  assumes "list_all (\<lambda>a. \<exists>p. get_person st a = Inr p) (map actor (get_list (msg_reactions m)))"
  shows "\<exists>st'. (if truthy (msg_reactions m) then handle_reactions st iv m else Inr st) = Inr st'"
proof (cases "msg_reactions m")
  case None
  then show ?thesis by (simp add: truthy_def)
next
  case (Some rss)
  with assms have "list_all (\<lambda>a. \<exists>p. get_person st a = Inr p) (map actor rss)"
    by (simp add: get_list_def)
  from reactions_loop_ok [OF this, of iv] Some show ?thesis
    by (simp add: handle_reactions_def)
qed

lemma analyze_step_ok:
  assumes gi: "get_intervals st = Inr seen" and sp: "get_person st (sender_name m) = Inr p"
    and ac: "list_all (\<lambda>a. \<exists>p. get_person st a = Inr p) (map actor (get_list (msg_reactions m)))"
  shows "\<exists>st'. analyze_step K args st m = Inr st'"
proof -
  define iv where "iv = get_correct_interval (timestamp m) args"
  from analyze_step_prefix [OF gi sp iv_def, of K] obtain s5 p5 where
    same: "\<And>who e. get_person s5 who = Inl e \<longleftrightarrow> get_person st who = Inl e"
    and p5: "get_person s5 (sender_name m) = Inr p5" "iv \<in> fst ` set (ints p5)"
    and eq: "analyze_step K args st m =
           ebind (if truthy (msg_reactions m) then handle_reactions s5 iv m else Inr s5)
             (\<lambda>s6. if truthy (share m) then handle_links s6 iv m else Inr s6)"
    by blast
  from ac have "list_all (\<lambda>a. \<exists>p. get_person s5 a = Inr p) (map actor (get_list (msg_reactions m)))"
    by (simp add: same_errors_people [of s5 st, OF same])
  from stage_reactions_ok [OF this] obtain s6 where
    6: "(if truthy (msg_reactions m) then handle_reactions s5 iv m else Inr s5) = Inr s6"
    by blast
  from effect_ready [OF stage_reactions [OF 6] p5] obtain p6 where
    "get_person s6 (sender_name m) = Inr p6" "iv \<in> fst ` set (ints p6)"
    by blast
  from stage_ok(4) [OF this] eq 6 show ?thesis
    by simp
qed

lemma analyze_step_sender_fail:
  assumes gi: "get_intervals st = Inr seen" and sp: "get_person st (sender_name m) = Inl e"
  shows "analyze_step K args st m = Inl e"
proof -
  define iv where "iv = get_correct_interval (timestamp m) args"
  from note_ok [OF gi] obtain s1 where 1: "note_interval st iv = Inr s1" by blast
  from effect_error [OF effect_note [OF 1] sp] have "ensure_interval s1 (sender_name m) iv = Inl e"
    by (rule ensure_fail)
  with 1 show ?thesis
    unfolding analyze_step_def Let_def iv_def [symmetric] by simp
qed

lemma analyze_step_actor_fail:
  assumes gi: "get_intervals st = Inr seen" and sp: "get_person st (sender_name m) = Inr p"
    and ac: "\<not> list_all (\<lambda>a. \<exists>p. get_person st a = Inr p)
               (map actor (get_list (msg_reactions m)))"
  shows "\<exists>a e. a \<in> set (map actor (get_list (msg_reactions m))) \<and> get_person st a = Inl e \<and>
           analyze_step K args st m = Inl e"
proof -
  define iv where "iv = get_correct_interval (timestamp m) args"
  from analyze_step_prefix [OF gi sp iv_def, of K] obtain s5 where
    same: "\<And>who e. get_person s5 who = Inl e \<longleftrightarrow> get_person st who = Inl e"
    and eq: "analyze_step K args st m =
           ebind (if truthy (msg_reactions m) then handle_reactions s5 iv m else Inr s5)
             (\<lambda>s6. if truthy (share m) then handle_links s6 iv m else Inr s6)"
    by blast
  from ac have "get_list (msg_reactions m) \<noteq> []"
    by auto
  then obtain rss where rss: "msg_reactions m = Some rss" "rss \<noteq> []"
    by (cases "msg_reactions m") (simp_all add: get_list_def)
  from ac have "\<not> list_all (\<lambda>a. \<exists>p. get_person s5 a = Inr p) (map actor rss)"
    by (simp add: same_errors_people [of s5 st, OF same] rss get_list_def)
  from reactions_loop_fail [OF this] obtain a e where a: "a \<in> set (map actor rss)"
    and e: "get_person s5 a = Inl e" and l: "handle_reactions_loop s5 iv rss = Inl e"
    by blast
  from l eq rss have "analyze_step K args st m = Inl e"
    by (simp add: truthy_def handle_reactions_def)
  with a e rss show ?thesis
    by (auto simp: get_list_def same)
qed

section \<open>The whole loop, from the initial table\<close>

lemma map_of_fold_update:
  "map_of (fold (\<lambda>p st. AList.update (name p) (Person x) st) ps st0) who =
     (if who \<in> name ` set ps then Some (Person x) else map_of st0 who)"
  by (induction ps arbitrary: st0) (auto simp: update_conv')

lemma get_person_initial:
  "get_person (initial_stats args ps) who =
     (if who = intervals_key then Inl TypeError
      else if who \<in> name ` set ps then Inr (create_stats args) else Inl KeyError)"
  by (simp add: get_person_def initial_stats_def update_conv' map_of_fold_update)

lemma get_intervals_initial: "get_intervals (initial_stats args ps) = Inr []"
  by (simp add: initial_stats_def get_intervals_note)

lemma set_update_subset: "set (AList.update k v al) \<subseteq> insert (k, v) (set al)"
  by (induction al) auto

lemma set_fold_update:
  "(k, e) \<in> set (fold (\<lambda>p st. AList.update (name p) (Person x) st) ps st0) \<Longrightarrow>
   (k, e) \<in> set st0 \<or> e = Person x"
proof (induction ps arbitrary: st0)
  case Nil
  then show ?case by simp
next
  case (Cons q ps)
  from Cons.prems have "(k, e) \<in> set (AList.update (name q) (Person x) st0) \<or> e = Person x"
    by (intro Cons.IH) simp
  with set_update_subset [of "name q" "Person x" st0] show ?case
    by blast
qed

lemma table_sum_zero:
  "\<forall>(k, e) \<in> set st. \<forall>p. e = Person p \<longrightarrow> general p = create_stats_sub \<Longrightarrow>
   table_sum st = create_stats_sub"
  unfolding table_sum_def by (induction st) (simp_all split: entry.splits prod.splits)

lemma table_sum_initial: "table_sum (initial_stats args ps) = create_stats_sub"
proof (rule table_sum_zero, clarify)
  fix k p
  assume "(k, Person p) \<in> set (initial_stats args ps)"
  with set_update_subset [of intervals_key "Intervals []"]
  have "(k, Person p) \<in>
      set (fold (\<lambda>p st. AList.update (name p) (Person (create_stats args)) st) ps [])"
    unfolding initial_stats_def by blast
  from set_fold_update [OF this] have "p = create_stats args"
    by simp
  then show "general p = create_stats_sub"
    by (simp add: create_stats_def)
qed

lemma distinct_fold_update:
  "distinct (map fst st0) \<Longrightarrow>
   distinct (map fst (fold (\<lambda>p st. AList.update (name p) (Person x) st) ps st0))"
  by (induction ps arbitrary: st0) (simp_all add: distinct_update)

lemma distinct_initial: "distinct (map fst (initial_stats args ps))"
  by (simp add: initial_stats_def distinct_update distinct_fold_update)

lemma csum_zeros: "(\<And>c. c \<in> set cs \<Longrightarrow> c = create_stats_sub) \<Longrightarrow> csum cs = create_stats_sub"
  by (induction cs) auto

lemma blank_entries:
  "csum (map snd (map (\<lambda>h. (f h, create_stats_sub)) hs)) = create_stats_sub"
  "get_person_stats \<lparr>general = g, ints = map (\<lambda>h. (f h, create_stats_sub)) hs\<rparr> iv =
     create_stats_sub"
  "distinct (map fst (map (\<lambda>h. (IntKey (int h), create_stats_sub)) hs)) \<longleftrightarrow> distinct hs"
proof -
  show "csum (map snd (map (\<lambda>h. (f h, create_stats_sub)) hs)) = create_stats_sub"
    by (induction hs) simp_all
  show "get_person_stats \<lparr>general = g, ints = map (\<lambda>h. (f h, create_stats_sub)) hs\<rparr> iv =
     create_stats_sub"
    by (auto simp: get_person_stats_def split: option.splits dest!: map_of_SomeD)
  show "distinct (map fst (map (\<lambda>h. (IntKey (int h), create_stats_sub)) hs)) \<longleftrightarrow> distinct hs"
    by (simp add: distinct_map comp_def inj_on_def)
qed

lemma create_stats_facts:
  "general (create_stats args) = create_stats_sub"
  "interval_sum (create_stats args) = create_stats_sub"
  "distinct (map fst (ints (create_stats args)))"
  "get_person_stats (create_stats args) iv = create_stats_sub"
proof -
  show "general (create_stats args) = create_stats_sub"
    by (simp add: create_stats_def)
  show "interval_sum (create_stats args) = create_stats_sub"
    unfolding interval_sum_def create_stats_def
    by (cases args) (simp_all only: interval_arg.case pstats.simps blank_entries list.map csum.simps)
  show "distinct (map fst (ints (create_stats args)))"
    unfolding create_stats_def
    by (cases args)
       (simp_all only: interval_arg.case pstats.simps blank_entries list.map distinct.simps
          distinct_upt)
  show "get_person_stats (create_stats args) iv = create_stats_sub"
    unfolding create_stats_def
    by (cases args)
       (simp_all only: interval_arg.case blank_entries,
        simp_all add: get_person_stats_def)
qed

lemma analyze_loop_person:
  assumes "analyze_loop K args (initial_stats args ps) ms = Inr st"
    and "get_person st who = Inr p"
  shows "who \<in> name ` set ps" and "who \<noteq> intervals_key"
    and "general p = tally K ms who"
    and "get_person_stats p iv = tally K (in_interval args iv ms) who"
    and "interval_sum p = tally K ms who"
    and "distinct (map fst (ints p))"
proof -
  from effect_person_rev [OF effect_analyze_loop [OF assms(1)] assms(2)]
  obtain p0 where p0: "get_person (initial_stats args ps) who = Inr p0"
    and g: "grows (tally K ms who) (\<lambda>iv. tally K (in_interval args iv ms) who) p0 p"
    by blast
  from p0 show "who \<in> name ` set ps" and "who \<noteq> intervals_key"
    by (auto simp: get_person_initial split: if_splits)
  from p0 have "p0 = create_stats args"
    by (auto simp: get_person_initial split: if_splits)
  with g show "general p = tally K ms who"
    and "get_person_stats p iv = tally K (in_interval args iv ms) who"
    and "interval_sum p = tally K ms who"
    and "distinct (map fst (ints p))"
    by (simp_all add: grows_def create_stats_facts)
qed

lemma analyze_loop_ok:
  assumes "get_intervals st = Inr seen"
    and "list_all (\<lambda>m. (\<exists>p. get_person st (sender_name m) = Inr p) \<and>
           list_all (\<lambda>a. \<exists>p. get_person st a = Inr p) (map actor (get_list (msg_reactions m)))) ms"
  shows "\<exists>st'. analyze_loop K args st ms = Inr st'"
  using assms
proof (induction ms arbitrary: st seen)
  case Nil
  then show ?case by simp
next
  case (Cons m ms)
  from Cons.prems(2) obtain p where p: "get_person st (sender_name m) = Inr p"
    and ac: "list_all (\<lambda>a. \<exists>p. get_person st a = Inr p) (map actor (get_list (msg_reactions m)))"
    by auto
  from analyze_step_ok [OF Cons.prems(1) p ac] obtain s1 where
    1: "analyze_step K args st m = Inr s1" by blast
  note e = effect_analyze_step [OF 1]
  have "list_all (\<lambda>m. (\<exists>p. get_person s1 (sender_name m) = Inr p) \<and>
           list_all (\<lambda>a. \<exists>p. get_person s1 a = Inr p) (map actor (get_list (msg_reactions m)))) ms"
    using Cons.prems(2) by (simp add: effect_people [OF e])
  from Cons.IH [OF analyze_step_intervals [OF 1 Cons.prems(1)] this] 1 show ?case
    by simp
qed

section \<open>Counters of a tally\<close>

lemma csum_fields:
  "msgs_sent (csum cs) = (\<Sum>c\<leftarrow>cs. msgs_sent c)"
  "avg_msg_len (csum cs) = (\<Sum>c\<leftarrow>cs. avg_msg_len c)"
  "reactions (csum cs) = (\<Sum>c\<leftarrow>cs. reactions c)"
  by (induction cs) (simp_all add: cadd_def create_stats_sub_def)

lemma contribution_fields:
  "msgs_sent (contribution K m who) = (if sender_name m = who \<and> truthy (content m) then 1 else 0)"
  "avg_msg_len (contribution K m who) =
     (if sender_name m = who \<and> truthy (content m) then int (length (get_list (content m))) else 0)"
  "reactions (contribution K m who) =
     int (count_list (map actor (get_list (msg_reactions m))) who)"
  by (auto simp: contribution_def sent_def sent_content_def sent_photos_def sent_videos_def
      sent_links_def received_def cadd_def create_stats_sub_def truthy_def get_list_def
      split: option.splits)

lemma sum_list_indicator:
  "(\<Sum>x\<leftarrow>xs. if P x then (1::int) else 0) = int (length (filter P xs))"
  by (induction xs) simp_all

lemma sum_list_guarded:
  "(\<Sum>x\<leftarrow>xs. if P x then f x else (0::int)) = (\<Sum>x\<leftarrow>filter P xs. f x)"
  by (induction xs) simp_all

lemma tally_fields:
  "msgs_sent (tally K ms who) = int (length (texts_of who ms))"
  "avg_msg_len (tally K ms who) = total_length (texts_of who ms)"
  by (simp_all add: tally_def csum_fields comp_def contribution_fields sum_list_indicator
      sum_list_guarded texts_of_def total_length_def)

lemma texts_in_interval: "texts_of who (in_interval args iv ms) = in_interval args iv (texts_of who ms)"
  by (auto simp: texts_of_def in_interval_def intro: filter_cong)

lemma added_msgs_sent: "msgs_sent (added K m) = (if truthy (content m) then 1 else 0)"
  by (simp add: added_def sent_def sent_content_def sent_photos_def sent_videos_def
      sent_links_def cadd_def create_stats_sub_def)

lemma table_sum_msgs_sent:
  "msgs_sent (table_sum st) =
     (\<Sum>(who, e)\<leftarrow>st. case e of Person p \<Rightarrow> msgs_sent (general p) | Intervals l \<Rightarrow> 0)"
  unfolding table_sum_def
  by (induction st) (auto simp: cadd_def create_stats_sub_def split: entry.splits)

lemma interval_sum_msgs_sent: "msgs_sent (interval_sum p) = (\<Sum>c\<leftarrow>map snd (ints p). msgs_sent c)"
  by (simp add: interval_sum_def csum_fields)

lemma totals_consistent_iff:
  "totals_consistent p \<longleftrightarrow> msgs_sent (general p) = msgs_sent (interval_sum p)"
  by (simp add: totals_consistent_def interval_sum_def csum_fields)

lemma total_msgs_sent_eq: "total_msgs_sent st = msgs_sent (table_sum st)"
  by (simp add: total_msgs_sent_def table_sum_msgs_sent)

section \<open>The averaging pass\<close>

lemma average_interval_eq: "average_interval c = Inr (averaged c)"
  by (simp add: average_interval_def averaged_def true_div_def)

lemma average_intervals_eq: "average_intervals al = Inr (map (\<lambda>(k, c). (k, averaged c)) al)"
  by (induction al) (auto simp: average_interval_eq)

lemma average_person_eq:
  "average_person p =
     (if msgs_sent (general p) = 0 then Inl ZeroDivisionError
      else Inr \<lparr>general = with_avg (general p)
                   (PyFloat (of_int (avg_msg_len (general p)) / of_int (msgs_sent (general p)))),
                ints = map (\<lambda>(k, c). (k, averaged c)) (ints p)\<rparr>)"
  by (simp add: average_person_def true_div_def average_intervals_eq)

lemma map_of_averaged:
  "map_of (map (\<lambda>(k, c). (k, averaged c)) al) iv = map_option averaged (map_of al iv)"
  by (induction al) auto

lemma average_all_person:
  "average_all st = Inr tbl \<Longrightarrow> get_person tbl who = Inr q \<Longrightarrow> who \<noteq> intervals_key \<Longrightarrow>
   \<exists>p. get_person st who = Inr p \<and> average_person p = Inr q"
proof (induction st arbitrary: tbl)
  case Nil
  then show ?case by (simp add: get_person_def)
next
  case (Cons ke rest)
  obtain k e where ke: "ke = (k, e)" by (cases ke)
  from Cons.prems(1) ke obtain e1 rest1 where
    e1: "(if k = intervals_key
            then Inr (case e of Intervals l \<Rightarrow> Intervals l
                      | Person p \<Rightarrow> Person \<lparr>general = untouched (general p),
                                  ints = map (\<lambda>(k, c). (k, untouched c)) (ints p)\<rparr>)
            else (case e of Intervals l \<Rightarrow> Inl TypeError
                  | Person p \<Rightarrow> ebind (average_person p) (\<lambda>p1. Inr (Person p1)))) = Inr e1"
    and rest1: "average_all rest = Inr rest1" and tbl: "tbl = (k, e1) # rest1"
    by (auto simp: ebind_eq_Inr)
  show ?case
  proof (cases "who = k")
    case True
    with Cons.prems(2,3) tbl e1 ke show ?thesis
      by (auto simp: get_person_def ebind_eq_Inr split: entry.splits)
  next
    case False
    with Cons.prems(2) tbl have "get_person rest1 who = Inr q"
      by (simp add: get_person_def)
    from Cons.IH [OF rest1 this Cons.prems(3)] False ke show ?thesis
      by (simp add: get_person_def)
  qed
qed

lemma average_all_intervals:
  "average_all st = Inr tbl \<Longrightarrow> map_of st intervals_key = Some (Intervals l) \<Longrightarrow>
   map_of tbl intervals_key = Some (Intervals l)"
proof (induction st arbitrary: tbl)
  case Nil
  then show ?case by simp
next
  case (Cons ke rest)
  obtain k e where ke: "ke = (k, e)" by (cases ke)
  from Cons.prems(1) ke obtain e1 rest1 where
    e1: "(if k = intervals_key
            then Inr (case e of Intervals l \<Rightarrow> Intervals l
                      | Person p \<Rightarrow> Person \<lparr>general = untouched (general p),
                                  ints = map (\<lambda>(k, c). (k, untouched c)) (ints p)\<rparr>)
            else (case e of Intervals l \<Rightarrow> Inl TypeError
                  | Person p \<Rightarrow> ebind (average_person p) (\<lambda>p1. Inr (Person p1)))) = Inr e1"
    and rest1: "average_all rest = Inr rest1" and tbl: "tbl = (k, e1) # rest1"
    by (auto simp: ebind_eq_Inr)
  show ?case
  proof (cases "k = intervals_key")
    case True
    with Cons.prems(2) ke e1 tbl show ?thesis by auto
  next
    case False
    with Cons.prems(2) ke have "map_of rest intervals_key = Some (Intervals l)" by auto
    from Cons.IH [OF rest1 this] False tbl show ?thesis by auto
  qed
qed

lemma analyze_person:
  assumes "analyze K args ps ms = Inr tbl" and "get_person tbl who = Inr q"
  obtains st p where "analyze_loop K args (initial_stats args ps) ms = Inr st"
    and "get_person st who = Inr p" and "msgs_sent (general p) \<noteq> 0"
    and "general q = with_avg (general p)
           (PyFloat (of_int (avg_msg_len (general p)) / of_int (msgs_sent (general p))))"
    and "ints q = map (\<lambda>(k, c). (k, averaged c)) (ints p)"
proof -
  from assms(1) obtain st where st: "analyze_loop K args (initial_stats args ps) ms = Inr st"
    and tbl: "average_all st = Inr tbl"
    by (auto simp: analyze_def ebind_eq_Inr)
  from analyze_loop_intervals [OF st get_intervals_initial] obtain l where
    "get_intervals st = Inr l" by blast
  from average_all_intervals [OF tbl get_intervals_present [OF this]] assms(2)
  have "who \<noteq> intervals_key"
    by (auto simp: get_person_def)
  from average_all_person [OF tbl assms(2) this] obtain p where
    p: "get_person st who = Inr p" and q: "average_person p = Inr q"
    by blast
  from q have "msgs_sent (general p) \<noteq> 0"
    and "general q = with_avg (general p)
           (PyFloat (of_int (avg_msg_len (general p)) / of_int (msgs_sent (general p))))"
    and "ints q = map (\<lambda>(k, c). (k, averaged c)) (ints p)"
    by (auto simp: average_person_eq split: if_splits)
  with st p show thesis by (rule that)
qed

lemma analyze_printed:
  assumes "analyze K args ps ms = Inr tbl"
  shows "print_interval_stats tbl args =
     Inr (case args of
            hourly \<Rightarrow> map (\<lambda>hr. IntKey (int hr)) [0..<24]
          | monthly \<Rightarrow> first_seen (map (\<lambda>m. get_correct_interval (timestamp m) args) ms)
          | yearly \<Rightarrow> first_seen (map (\<lambda>m. get_correct_interval (timestamp m) args) ms))"
proof -
  from assms obtain st where st: "analyze_loop K args (initial_stats args ps) ms = Inr st"
    and tbl: "average_all st = Inr tbl"
    by (auto simp: analyze_def ebind_eq_Inr)
  from analyze_loop_intervals [OF st get_intervals_initial]
  have "get_intervals st =
      Inr (first_seen (map (\<lambda>m. get_correct_interval (timestamp m) args) ms))"
    by (simp add: fold_first_seen)
  from average_all_intervals [OF tbl get_intervals_present [OF this]] show ?thesis
    by (cases args) (simp_all add: print_interval_stats_def del: upt_rec_numeral)
qed

section \<open>Formatting of interval keys\<close>

lemma digits_1: "n < 10 \<Longrightarrow> digits n = [48 + n]"
  by (simp add: digits.simps)

lemma digits_2: "10 \<le> n \<Longrightarrow> n < 100 \<Longrightarrow> digits n = [48 + n div 10, 48 + n mod 10]"
  by (subst digits.simps) (simp add: digits_1)

lemma digits_3:
  "100 \<le> n \<Longrightarrow> n < 1000 \<Longrightarrow> digits n = [48 + n div 100, 48 + n div 10 mod 10, 48 + n mod 10]"
  by (subst digits.simps) (simp add: digits_2 div_mult2_eq [symmetric])

lemma digits_4:
  "1000 \<le> n \<Longrightarrow> n < 10000 \<Longrightarrow>
   digits n = [48 + n div 1000, 48 + n div 100 mod 10, 48 + n div 10 mod 10, 48 + n mod 10]"
  by (subst digits.simps) (simp add: digits_3 div_mult2_eq [symmetric])

lemma digits_short: "n < 1000 \<Longrightarrow> length (digits n) < 4"
proof -
  assume "n < 1000"
  then consider "n < 10" | "10 \<le> n" "n < 100" | "100 \<le> n" "n < 1000"
    by linarith
  then show ?thesis
    by cases (simp_all add: digits_1 digits_2 digits_3)
qed

section \<open>Entries created for reactions\<close>

lemma increment_key:
  "increment st k iv f = Inr st' \<Longrightarrow> \<exists>p'. get_person st' k = Inr p' \<and> iv \<in> fst ` set (ints p')"
  by (auto simp: increment_def ebind_eq_Inr get_person_update key_in_update split: option.splits)

lemma reactions_loop_keys:
  "handle_reactions_loop st iv rss = Inr st' \<Longrightarrow> a \<in> set (map actor rss) \<Longrightarrow>
   \<exists>p'. get_person st' a = Inr p' \<and> iv \<in> fst ` set (ints p')"
proof (induction rss arbitrary: st)
  case Nil
  then show ?case by simp
next
  case (Cons rs rest)
  from Cons.prems(1) obtain s0 s1 where "ensure_interval st (actor rs) iv = Inr s0"
    and inc: "increment s0 (actor rs) iv (\<lambda>c. c\<lparr>reactions := reactions c + 1\<rparr>) = Inr s1"
    and rest: "handle_reactions_loop s1 iv rest = Inr st'"
    by (auto simp: ebind_eq_Inr handle_reaction_def)
  show ?case
  proof (cases "a = actor rs")
    case True
    from increment_key [OF inc] obtain p1 where "get_person s1 a = Inr p1" "iv \<in> fst ` set (ints p1)"
      using True by blast
    then show ?thesis
      by (rule effect_ready [OF effect_reactions_loop [OF rest]])
  next
    case False
    with Cons.prems(2) have "a \<in> set (map actor rest)" by simp
    then show ?thesis by (rule Cons.IH [OF rest])
  qed
qed

lemma analyze_step_keys:
  assumes "analyze_step K args st m = Inr st'" and "a \<in> set (actors m)"
  shows "\<exists>p'. get_person st' a = Inr p' \<and>
           get_correct_interval (timestamp m) args \<in> fst ` set (ints p')"
proof -
  define iv where "iv = get_correct_interval (timestamp m) args"
  from assms(1) obtain s5 s6 where
    6: "(if truthy (msg_reactions m) then handle_reactions s5 iv m else Inr s5) = Inr s6" and
    7: "(if truthy (share m) then handle_links s6 iv m else Inr s6) = Inr st'"
    unfolding analyze_step_def Let_def iv_def [symmetric] ebind_eq_Inr by blast
  from assms(2) obtain rss where rss: "msg_reactions m = Some rss" "a \<in> set (map actor rss)"
    by (cases "msg_reactions m") (auto simp: actors_def get_list_def)
  then have "rss \<noteq> []" by auto
  with 6 rss have "handle_reactions_loop s5 iv rss = Inr s6"
    by (simp add: truthy_def handle_reactions_def)
  from reactions_loop_keys [OF this rss(2)] obtain p6 where
    "get_person s6 a = Inr p6" "iv \<in> fst ` set (ints p6)"
    by blast
  then show ?thesis
    unfolding iv_def [symmetric] by (rule effect_ready [OF stage_links [OF 7]])
qed

section \<open>Tables the loop can reach\<close>

lemma reached_errors:
  assumes "analyze_loop K args (initial_stats args ps) ms = Inr st"
  shows "get_person st who = Inl e \<longleftrightarrow> get_person (initial_stats args ps) who = Inl e"
  using effect_error [OF effect_analyze_loop [OF assms]]
    effect_error_rev [OF effect_analyze_loop [OF assms]]
  by blast

lemma reached_people:
  assumes "analyze_loop K args (initial_stats args ps) ms = Inr st"
  shows "(\<exists>p. get_person st who = Inr p) \<longleftrightarrow> declared ps who"
proof -
  have "(\<exists>p. get_person st who = Inr p) \<longleftrightarrow>
        (\<exists>p. get_person (initial_stats args ps) who = Inr p)"
    by (rule effect_people [OF effect_analyze_loop [OF assms]])
  then show ?thesis
    by (auto simp: get_person_initial declared_def)
qed

lemma reached_intervals:
  assumes "analyze_loop K args (initial_stats args ps) ms = Inr st"
  shows "get_intervals st =
     Inr (first_seen (map (\<lambda>m. get_correct_interval (timestamp m) args) ms))"
  using analyze_loop_intervals [OF assms get_intervals_initial]
  by (simp add: fold_first_seen)

lemma analyze_loop_well_formed:
  assumes "list_all (well_formed ps) ms"
  shows "\<exists>st. analyze_loop K args (initial_stats args ps) ms = Inr st"
proof (rule analyze_loop_ok [OF get_intervals_initial])
  have "(\<exists>p. get_person (initial_stats args ps) who = Inr p) \<longleftrightarrow> declared ps who" for who
    by (auto simp: get_person_initial declared_def)
  with assms show "list_all (\<lambda>m. (\<exists>p. get_person (initial_stats args ps) (sender_name m) = Inr p) \<and>
           list_all (\<lambda>a. \<exists>p. get_person (initial_stats args ps) a = Inr p)
             (map actor (get_list (msg_reactions m)))) ms"
    by (simp add: list_all_iff well_formed_def actors_def)
qed

section \<open>Evaluation of concrete runs\<close>

lemmas run_simps =
  analyze_def analyze_loop.simps analyze_step_def initial_stats_def create_stats_def
  create_stats_sub_def note_interval_def ensure_interval_def increment_def
  handle_content_def handle_photos_and_gifs_def handle_videos_def handle_links_def
  handle_reactions_def handle_reaction_def get_person_def get_intervals_def
  get_correct_interval_def truthy_def get_list_def count_emoji_def str_count.simps
  average_person_def average_interval_def true_div_def with_avg_def untouched_def
  printed_intervals_def print_interval_stats_def intervals_key_def ascii_def
  bare_msg_def text_msg_def alice_def bob_def str_int_def fmt_02d_def digits.simps
  is_gif_def Let_def

lemma example_names:
  "alice \<noteq> intervals_key" "bob \<noteq> intervals_key" "alice \<noteq> bob"
  by (simp_all add: alice_def bob_def intervals_key_def ascii_def)

lemma two_texts_well_formed: "list_all (well_formed [\<lparr>name = alice\<rparr>]) two_texts"
  by (simp add: two_texts_def well_formed_def declared_def actors_def text_msg_def bare_msg_def
      get_list_def example_names)

lemma ascending_hours: "ascending (map (\<lambda>hr. IntKey (int hr)) [0..<n])"
  by (simp add: ascending_def sorted_wrt_map sorted_wrt_iff_nth_less del: upt_rec_numeral)

section \<open>When the averaging pass raises\<close>

lemma keys_update: "fst ` set (AList.update k v al) = insert k (fst ` set al)"
  using update_keys [of k v al] arg_cong [of _ _ set] by (auto simp flip: set_map split: if_splits)

lemma keys_fold_update:
  "fst ` set (fold (\<lambda>p st. AList.update (name p) (Person x) st) ps st0) =
     name ` set ps \<union> fst ` set st0"
  by (induction ps arbitrary: st0) (auto simp: keys_update)

lemma keys_initial:
  "fst ` set (initial_stats args ps) = insert intervals_key (name ` set ps)"
  by (simp add: initial_stats_def keys_update keys_fold_update)

lemma reached_keys:
  assumes "analyze_loop K args (initial_stats args ps) ms = Inr st"
  shows "map fst st = map fst (initial_stats args ps)"
  using effect_analyze_loop [OF assms] by (simp add: effect_def)

lemma reached_entries:
  assumes st: "analyze_loop K args (initial_stats args ps) ms = Inr st" and e: "(k, e) \<in> set st"
  shows "if k = intervals_key then (\<exists>l. e = Intervals l)
         else (\<exists>p. e = Person p \<and> declared ps k \<and> general p = tally K ms k)"
proof -
  have "distinct (map fst st)"
    by (simp add: reached_keys [OF st] distinct_initial)
  with e have m: "map_of st k = Some e"
    by simp
  show ?thesis
  proof (cases "k = intervals_key")
    case True
    with m get_intervals_present [OF reached_intervals [OF st]] show ?thesis
      by auto
  next
    case False
    from e have "k \<in> fst ` set st"
      by force
    also have "fst ` set st = fst ` set (initial_stats args ps)"
      using reached_keys [OF st] by (simp flip: set_map)
    finally have "declared ps k"
      using False by (simp add: keys_initial declared_def)
    with reached_people [OF st, of k] obtain p where p: "get_person st k = Inr p"
      by blast
    with m get_person_present [OF p] analyze_loop_person(3) [OF st p] False \<open>declared ps k\<close>
    show ?thesis by auto
  qed
qed

lemma average_all_cases:
  assumes "\<And>k e. (k, e) \<in> set st \<Longrightarrow>
             (if k = intervals_key then (\<exists>l. e = Intervals l) else (\<exists>p. e = Person p))"
  shows "average_all st =
     (if \<exists>k p. (k, Person p) \<in> set st \<and> k \<noteq> intervals_key \<and> msgs_sent (general p) = 0
      then Inl ZeroDivisionError
      else Inr (map (\<lambda>(k, e). (k, case e of
                   Intervals l \<Rightarrow> Intervals l
                 | Person p \<Rightarrow> Person \<lparr>general = with_avg (general p)
                       (PyFloat (of_int (avg_msg_len (general p)) / of_int (msgs_sent (general p)))),
                     ints = map (\<lambda>(k, c). (k, averaged c)) (ints p)\<rparr>)) st))"
  using assms
proof (induction st)
  case Nil
  then show ?case by simp
next
  case (Cons ke rest)
  obtain k e where ke: "ke = (k, e)" by (cases ke)
  have rest: "(if k' = intervals_key then (\<exists>l. e' = Intervals l) else (\<exists>p. e' = Person p))"
    if "(k', e') \<in> set rest" for k' e'
    using Cons.prems [of k' e'] that by simp
  note IH = Cons.IH [OF rest]
  from Cons.prems [of k e] ke
  have head: "if k = intervals_key then (\<exists>l. e = Intervals l) else (\<exists>p. e = Person p)"
    by simp
  show ?case
  proof (cases "k = intervals_key")
    case True
    with head obtain l where "e = Intervals l" by auto
    with True ke IH show ?thesis
      by (auto simp: ebind_def split: sum.splits)
  next
    case False
    with head obtain p where "e = Person p" by auto
    with False ke IH show ?thesis
      by (auto simp: average_person_eq ebind_def split: sum.splits)
  qed
qed

lemma analyze_raises_iff:
  assumes st: "analyze_loop K args (initial_stats args ps) ms = Inr st"
  shows "analyze K args ps ms = Inl ZeroDivisionError \<longleftrightarrow>
           (\<exists>who. declared ps who \<and> texts_of who ms = [])"
    and "(\<exists>tbl. analyze K args ps ms = Inr tbl) \<longleftrightarrow>
           \<not> (\<exists>who. declared ps who \<and> texts_of who ms = [])"
proof -
  have ent: "if k = intervals_key then (\<exists>l. e = Intervals l) else (\<exists>p. e = Person p)"
    if "(k, e) \<in> set st" for k e
    using reached_entries [OF st that] by (auto split: if_splits)
  have z: "(\<exists>k p. (k, Person p) \<in> set st \<and> k \<noteq> intervals_key \<and> msgs_sent (general p) = 0) \<longleftrightarrow>
           (\<exists>who. declared ps who \<and> texts_of who ms = [])"
  proof
    assume "\<exists>k p. (k, Person p) \<in> set st \<and> k \<noteq> intervals_key \<and> msgs_sent (general p) = 0"
    then obtain k p where kp: "(k, Person p) \<in> set st" "k \<noteq> intervals_key"
      "msgs_sent (general p) = 0"
      by blast
    from reached_entries [OF st kp(1)] kp(2,3) have "declared ps k \<and> texts_of k ms = []"
      by (simp add: tally_fields)
    then show "\<exists>who. declared ps who \<and> texts_of who ms = []" by blast
  next
    assume "\<exists>who. declared ps who \<and> texts_of who ms = []"
    then obtain who where w: "declared ps who" "texts_of who ms = []"
      by blast
    with reached_people [OF st, of who] obtain p where p: "get_person st who = Inr p"
      by blast
    from get_person_present [OF p] have "(who, Person p) \<in> set st"
      by (rule map_of_SomeD)
    moreover from analyze_loop_person(3) [OF st p] w(2) have "msgs_sent (general p) = 0"
      by (simp add: tally_fields)
    moreover from w(1) have "who \<noteq> intervals_key"
      by (simp add: declared_def)
    ultimately show "\<exists>k p. (k, Person p) \<in> set st \<and> k \<noteq> intervals_key \<and>
        msgs_sent (general p) = 0"
      by blast
  qed
  have a: "analyze K args ps ms = average_all st"
    by (simp add: analyze_def st)
  note c = average_all_cases [of st, OF ent, unfolded z]
  show "analyze K args ps ms = Inl ZeroDivisionError \<longleftrightarrow>
           (\<exists>who. declared ps who \<and> texts_of who ms = [])"
    by (simp add: a c)
  show "(\<exists>tbl. analyze K args ps ms = Inr tbl) \<longleftrightarrow>
           \<not> (\<exists>who. declared ps who \<and> texts_of who ms = [])"
    by (simp add: a c)
qed

lemma analyze_returns:
  assumes "list_all (well_formed ps) ms"
    and "list_all (\<lambda>p. name p = intervals_key \<or> texts_of (name p) ms \<noteq> []) ps"
  shows "\<exists>tbl. analyze K args ps ms = Inr tbl"
proof -
  from analyze_loop_well_formed [OF assms(1)] obtain st where
    st: "analyze_loop K args (initial_stats args ps) ms = Inr st"
    by blast
  have "\<not> (\<exists>who. declared ps who \<and> texts_of who ms = [])"
    using assms(2) by (auto simp: declared_def list_all_iff)
  with analyze_raises_iff(2) [OF st] show ?thesis
    by simp
qed

section \<open>The table of a completed analysis\<close>

lemma map_of_map_entry:
  "map_of (map (\<lambda>(k, e). (k, f e)) st) who = map_option f (map_of st who)"
  by (induction st) auto

lemma analyze_people:
  assumes "analyze K args ps ms = Inr tbl"
  shows "(\<exists>q. get_person tbl who = Inr q) \<longleftrightarrow> declared ps who"
proof -
  from assms obtain st where st: "analyze_loop K args (initial_stats args ps) ms = Inr st"
    and tbl: "average_all st = Inr tbl"
    by (auto simp: analyze_def ebind_eq_Inr)
  have ent: "if k = intervals_key then (\<exists>l. e = Intervals l) else (\<exists>p. e = Person p)"
    if "(k, e) \<in> set st" for k e
    using reached_entries [OF st that] by (auto split: if_splits)
  from tbl average_all_cases [of st, OF ent]
  have "tbl = map (\<lambda>(k, e). (k, case e of
                   Intervals l \<Rightarrow> Intervals l
                 | Person p \<Rightarrow> Person \<lparr>general = with_avg (general p)
                       (PyFloat (of_int (avg_msg_len (general p)) / of_int (msgs_sent (general p)))),
                     ints = map (\<lambda>(k, c). (k, averaged c)) (ints p)\<rparr>)) st"
    by (simp split: if_splits)
  then have "(\<exists>q. get_person tbl who = Inr q) \<longleftrightarrow> (\<exists>p. get_person st who = Inr p)"
    by (auto simp: get_person_def map_of_map_entry split: option.splits entry.splits)
  with reached_people [OF st] show ?thesis
    by simp
qed


lemma analyze_text_intervals:
  assumes "analyze K args ps ms = Inr tbl" and "get_person tbl who = Inr q"
  shows "list_all (\<lambda>m. \<exists>c. map_of (ints q) (get_correct_interval (timestamp m) args) = Some c)
           (texts_of who ms)"
proof -
  from assms obtain st p where st: "analyze_loop K args (initial_stats args ps) ms = Inr st"
    and p: "get_person st who = Inr p"
    and i: "ints q = map (\<lambda>(k, c). (k, averaged c)) (ints p)"
    by (rule analyze_person)
  have "\<exists>c. map_of (ints q) (get_correct_interval (timestamp m) args) = Some c"
    if m: "m \<in> set (texts_of who ms)" for m
  proof -
    let ?iv = "get_correct_interval (timestamp m) args"
    from m have "m \<in> set (in_interval args ?iv (texts_of who ms))"
      by (simp add: in_interval_def)
    then have "0 < length (in_interval args ?iv (texts_of who ms))"
      by (auto simp: length_greater_0_conv)
    moreover have "msgs_sent (get_person_stats p ?iv) =
        int (length (in_interval args ?iv (texts_of who ms)))"
      by (simp add: analyze_loop_person(4) [OF st p] tally_fields texts_in_interval)
    ultimately have "msgs_sent (get_person_stats p ?iv) \<noteq> 0"
      by simp
    then obtain c0 where "map_of (ints p) ?iv = Some c0"
      by (cases "map_of (ints p) ?iv") (simp_all add: get_person_stats_def create_stats_sub_def)
    then show ?thesis
      by (simp add: i map_of_averaged)
  qed
  then show ?thesis
    by (simp add: list_all_iff)
qed

section \<open>Claims\<close>

text \<open>
  C1 (the code departs from it): the averaging loop divides every participant's
  \<open>avg_msg_len\<close> by \<open>msgs_sent\<close> without the test that it applies to the intervals. Every
  conversation whose senders and actors are declared and in which some declared
  participant sent no text message raises \<open>ZeroDivisionError\<close> instead of leaving that
  average at 0; the conversation without messages is one of them.
\<close>

theorem silent_participant_raises:
  assumes "list_all (well_formed ps) ms" and "declared ps who" and "texts_of who ms = []"
  shows "analyze K args ps ms = Inl ZeroDivisionError"
proof -
  from analyze_loop_well_formed [OF assms(1)] obtain st where
    "analyze_loop K args (initial_stats args ps) ms = Inr st"
    by blast
  from analyze_raises_iff(1) [OF this] assms(2,3) show ?thesis
    by blast
qed

theorem silent_participant_raises_witness:
  "list_all (well_formed [\<lparr>name = alice\<rparr>]) [] \<and> declared [\<lparr>name = alice\<rparr>] alice \<and>
   texts_of alice [] = [] \<and>
   analyze {} hourly [\<lparr>name = alice\<rparr>] [] = Inl ZeroDivisionError \<and>
   list_all (well_formed [\<lparr>name = alice\<rparr>, \<lparr>name = bob\<rparr>]) two_texts \<and>
   declared [\<lparr>name = alice\<rparr>, \<lparr>name = bob\<rparr>] bob \<and> texts_of bob two_texts = [] \<and>
   analyze {} monthly [\<lparr>name = alice\<rparr>, \<lparr>name = bob\<rparr>] two_texts = Inl ZeroDivisionError"
proof -
  have 1: "list_all (well_formed [\<lparr>name = alice\<rparr>]) []"
    by simp
  have 2: "declared [\<lparr>name = alice\<rparr>] alice"
    by (simp add: declared_def example_names)
  have 3: "texts_of alice [] = []"
    by (simp add: texts_of_def)
  have 4: "list_all (well_formed [\<lparr>name = alice\<rparr>, \<lparr>name = bob\<rparr>]) two_texts"
    by (simp add: two_texts_def well_formed_def declared_def actors_def text_msg_def bare_msg_def
        get_list_def example_names)
  have 5: "declared [\<lparr>name = alice\<rparr>, \<lparr>name = bob\<rparr>] bob"
    by (simp add: declared_def example_names)
  have 6: "texts_of bob two_texts = []"
    using example_names by (simp add: texts_of_def two_texts_def text_msg_def bare_msg_def)
  from silent_participant_raises [OF 1 2 3, of "{}" hourly]
    silent_participant_raises [OF 4 5 6, of "{}" monthly] 1 2 3 4 5 6
  show ?thesis by simp
qed

text \<open>
  The conversation of one participant and no message, by evaluation: it raises in every
  interval mode and for every symbol table.
\<close>

theorem no_message_conversation_raises:
  "analyze K args [\<lparr>name = ascii ''Alice''\<rparr>] [] = Inl ZeroDivisionError"
  by (simp add: analyze_def initial_stats_def create_stats_def create_stats_sub_def
      true_div_def average_person_def ascii_def intervals_key_def)

text \<open>
  C2: a step that runs on a table in which the sender and every reacting actor are
  participants returns, and for every participant it adds to \<open>reactions\<close> the number of
  the message's reactions whose actor the participant is, on the all-time counters and on
  the counters of the message's interval. An actor has an entry for that interval
  afterwards (created if it was absent); a participant who is no actor, the sender
  included, keeps the same \<open>reactions\<close>.
\<close>

theorem reactions_counted_for_actor:
  assumes "get_intervals st = Inr seen"
    and "get_person st (sender_name m) = Inr sp"
    and "list_all (\<lambda>a. \<exists>ap. get_person st a = Inr ap) (actors m)"
    and "get_person st who = Inr p"
  shows "\<exists>st' p'. analyze_step K args st m = Inr st' \<and> get_person st' who = Inr p' \<and>
     reactions (general p') = reactions (general p) + int (count_list (actors m) who) \<and>
     reactions (get_person_stats p' (get_correct_interval (timestamp m) args)) =
       reactions (get_person_stats p (get_correct_interval (timestamp m) args)) +
       int (count_list (actors m) who) \<and>
     (if who \<in> set (actors m)
      then get_correct_interval (timestamp m) args \<in> fst ` set (ints p')
      else reactions (general p') = reactions (general p))"
proof -
  from analyze_step_ok [OF assms(1,2) assms(3) [unfolded actors_def]] obtain st' where
    st': "analyze_step K args st m = Inr st'" by blast
  from effect_person [OF effect_analyze_step [OF st'] assms(4)] obtain p' where
    p': "get_person st' who = Inr p'"
    and g: "grows (contribution K m who)
              (\<lambda>iv. if iv = get_correct_interval (timestamp m) args
                     then contribution K m who else create_stats_sub) p p'"
    by blast
  from g have "reactions (general p') = reactions (general p) + int (count_list (actors m) who)"
    and "reactions (get_person_stats p' (get_correct_interval (timestamp m) args)) =
       reactions (get_person_stats p (get_correct_interval (timestamp m) args)) +
       int (count_list (actors m) who)"
    by (simp_all add: grows_def cadd_def contribution_fields actors_def)
  moreover have "get_correct_interval (timestamp m) args \<in> fst ` set (ints p')"
    if "who \<in> set (actors m)"
    using analyze_step_keys [OF st' that] p' by simp
  moreover have "count_list (actors m) who = 0" if "who \<notin> set (actors m)"
    using that by (simp add: count_list_0_iff)
  ultimately show ?thesis
    using st' p' by auto
qed

theorem reactions_counted_for_actor_witness:
  "\<exists>st' pb pa. analyze_step {} monthly (initial_stats monthly [\<lparr>name = alice\<rparr>, \<lparr>name = bob\<rparr>])
        reacted_msg = Inr st' \<and>
     get_person st' bob = Inr pb \<and> reactions (general pb) = 1 \<and>
     reactions (get_person_stats pb (StrKey (ascii ''2018-08''))) = 1 \<and>
     StrKey (ascii ''2018-08'') \<in> fst ` set (ints pb) \<and>
     get_person st' alice = Inr pa \<and> reactions (general pa) = 0"
proof -
  let ?st = "initial_stats monthly [\<lparr>name = alice\<rparr>, \<lparr>name = bob\<rparr>]"
  have ne: "alice \<noteq> intervals_key" "bob \<noteq> intervals_key" "alice \<noteq> bob"
    by (simp_all add: alice_def bob_def intervals_key_def ascii_def)
  have a: "get_person ?st alice = Inr (create_stats monthly)"
    and b: "get_person ?st bob = Inr (create_stats monthly)"
    using ne by (simp_all add: get_person_initial)
  have s: "get_person ?st (sender_name reacted_msg) = Inr (create_stats monthly)"
    using a by (simp add: reacted_msg_def bare_msg_def)
  have l: "list_all (\<lambda>a. \<exists>ap. get_person ?st a = Inr ap) (actors reacted_msg)"
    using b by (simp add: reacted_msg_def bare_msg_def actors_def get_list_def)
  have k: "get_correct_interval (timestamp reacted_msg) monthly = StrKey (ascii ''2018-08'')"
    by (simp add: reacted_msg_def bare_msg_def get_correct_interval_def str_int_def fmt_02d_def
        digits_1 digits_4 ascii_def)
  have z: "reactions (general (create_stats monthly)) = 0"
    "reactions (get_person_stats (create_stats monthly) iv) = 0" for iv
    by (simp_all add: create_stats_facts) (simp_all add: create_stats_sub_def)
  have ac: "actors reacted_msg = [bob]"
    by (simp add: reacted_msg_def bare_msg_def actors_def get_list_def)
  from reactions_counted_for_actor [OF get_intervals_initial s l b, of "{}" monthly]
    reactions_counted_for_actor [OF get_intervals_initial s l a, of "{}" monthly]
  show ?thesis
    using ne by (auto simp: k z ac, force)
qed

text \<open>
  C3 (amended): a completed run prints one line per hour 0 to 23 in ascending order in
  hourly mode, whatever the messages were; in monthly and yearly mode it prints one line
  per distinct interval key of the messages, in the order in which the keys first occur
  in the message list.
\<close>

theorem printed_interval_order:
  assumes "analyze K args ps ms = Inr tbl"
  shows "printed_intervals K args ps ms =
           Inr (if args = hourly then map (\<lambda>hr. IntKey (int hr)) [0..<24]
                else first_seen (map (\<lambda>m. get_correct_interval (timestamp m) args) ms)) \<and>
         ascending (map (\<lambda>hr. IntKey (int hr)) [0..<24]) \<and>
         distinct (first_seen (map (\<lambda>m. get_correct_interval (timestamp m) args) ms)) \<and>
         set (first_seen (map (\<lambda>m. get_correct_interval (timestamp m) args) ms)) =
           set (map (\<lambda>m. get_correct_interval (timestamp m) args) ms) \<and>
         first_seen ([] :: interval list) = [] \<and>
         (\<forall>k ks. first_seen (k # ks) = k # filter (\<lambda>x. x \<noteq> k) (first_seen ks :: interval list))"
  using analyze_printed [OF assms] assms
  by (cases args)
     (simp_all add: printed_intervals_def ascending_hours first_seen_distinct first_seen_set
        first_seen_Cons del: upt_rec_numeral, simp_all add: first_seen_def)

theorem printed_interval_order_witness:
  "\<exists>tbl. analyze {} yearly [\<lparr>name = alice\<rparr>]
       [text_msg alice \<lparr>year = 2019, month = 1, hour = 0\<rparr> ''hi'',
        text_msg alice \<lparr>year = 2018, month = 1, hour = 0\<rparr> ''yo'',
        text_msg alice \<lparr>year = 2019, month = 2, hour = 0\<rparr> ''ok''] = Inr tbl \<and>
     printed_intervals {} yearly [\<lparr>name = alice\<rparr>]
       [text_msg alice \<lparr>year = 2019, month = 1, hour = 0\<rparr> ''hi'',
        text_msg alice \<lparr>year = 2018, month = 1, hour = 0\<rparr> ''yo'',
        text_msg alice \<lparr>year = 2019, month = 2, hour = 0\<rparr> ''ok'']
       = Inr [StrKey (ascii ''2019''), StrKey (ascii ''2018'')]"
proof -
  let ?ms = "[text_msg alice \<lparr>year = 2019, month = 1, hour = 0\<rparr> ''hi'',
        text_msg alice \<lparr>year = 2018, month = 1, hour = 0\<rparr> ''yo'',
        text_msg alice \<lparr>year = 2019, month = 2, hour = 0\<rparr> ''ok'']"
  have "\<exists>tbl. analyze {} yearly [\<lparr>name = alice\<rparr>] ?ms = Inr tbl"
    by (simp add: run_simps)
  then obtain tbl where r: "analyze {} yearly [\<lparr>name = alice\<rparr>] ?ms = Inr tbl"
    by blast
  have k: "map (\<lambda>m. get_correct_interval (timestamp m) yearly) ?ms =
      [StrKey (ascii ''2019''), StrKey (ascii ''2018''), StrKey (ascii ''2019'')]"
    by (simp add: get_correct_interval_def text_msg_def bare_msg_def str_int_def digits_4 ascii_def)
  from printed_interval_order [OF r, THEN conjunct1, unfolded k] r show ?thesis
    by (simp add: first_seen_def ascii_def)
qed

text \<open>
  C3 as stated fails: a message of 2019 followed by one of 2018 prints 2019 before 2018.
\<close>

theorem printed_in_order_of_arrival:
  "printed_intervals {} yearly [\<lparr>name = alice\<rparr>]
     [text_msg alice \<lparr>year = 2019, month = 1, hour = 0\<rparr> ''hi'',
      text_msg alice \<lparr>year = 2018, month = 1, hour = 0\<rparr> ''yo'']
     = Inr [StrKey (ascii ''2019''), StrKey (ascii ''2018'')] \<and>
   \<not> ascending [StrKey (ascii ''2019''), StrKey (ascii ''2018'')]"
  by (simp add: run_simps ascending_def)

text \<open>
  C4 (amended): an attachment of the \<open>photos\<close> list followed by the \<open>gifs\<close> list counts as
  a GIF exactly when its \<open>uri\<close> contains \<open>'.gif'\<close> somewhere, and as a photo otherwise.
  \<open>handle_photos_and_gifs\<close> adds the number of photos to \<open>photos_sent\<close> and the number of
  GIFs to \<open>gifs_sent\<close> of the sender, all-time and for the interval, and the two numbers
  add up to the number of attachments.
\<close>

theorem photos_and_gifs_partition:
  assumes "handle_photos_and_gifs st iv m = Inr st'"
    and "get_person st (sender_name m) = Inr p"
  shows "(\<forall>a. is_gif a \<longleftrightarrow> sublist (ascii ''.gif'') (uri a)) \<and>
     (\<exists>p'. get_person st' (sender_name m) = Inr p' \<and>
        photos_sent (general p') = photos_sent (general p) +
          int (length (filter (\<lambda>a. \<not> is_gif a) (get_list (photos m) @ get_list (gifs m)))) \<and>
        gifs_sent (general p') = gifs_sent (general p) +
          int (length (filter is_gif (get_list (photos m) @ get_list (gifs m)))) \<and>
        photos_sent (get_person_stats p' iv) = photos_sent (get_person_stats p iv) +
          int (length (filter (\<lambda>a. \<not> is_gif a) (get_list (photos m) @ get_list (gifs m)))) \<and>
        gifs_sent (get_person_stats p' iv) = gifs_sent (get_person_stats p iv) +
          int (length (filter is_gif (get_list (photos m) @ get_list (gifs m))))) \<and>
     length (filter (\<lambda>a. \<not> is_gif a) (get_list (photos m) @ get_list (gifs m))) +
       length (filter is_gif (get_list (photos m) @ get_list (gifs m))) =
       length (get_list (photos m) @ get_list (gifs m))"
proof -
  let ?atts = "get_list (photos m) @ get_list (gifs m)"
  from assms(1) have inc: "increment st (sender_name m) iv
      (\<lambda>c. c\<lparr>photos_sent := photos_sent c + int (length (filter (\<lambda>a. \<not> is_gif a) ?atts)),
             gifs_sent := gifs_sent c + int (length (filter is_gif ?atts))\<rparr>) = Inr st'"
    by (simp add: handle_photos_and_gifs_def count_photos_gifs_eq)
  have f: "c\<lparr>photos_sent := photos_sent c + int (length (filter (\<lambda>a. \<not> is_gif a) ?atts)),
             gifs_sent := gifs_sent c + int (length (filter is_gif ?atts))\<rparr> =
           cadd c (sent_photos m)" for c :: "int counters"
    by (simp add: cadd_def sent_photos_def create_stats_sub_def)
  have "\<exists>p'. get_person st' (sender_name m) = Inr p' \<and>
      general p' = cadd (general p) (sent_photos m) \<and>
      get_person_stats p' iv = cadd (get_person_stats p iv) (sent_photos m)"
    by (rule effect_person [OF effect_increment [OF inc f] assms(2)]) (simp add: grows_def)
  then obtain p' where p': "get_person st' (sender_name m) = Inr p'"
    and gg: "general p' = cadd (general p) (sent_photos m)"
    and gi: "get_person_stats p' iv = cadd (get_person_stats p iv) (sent_photos m)"
    by blast
  have 1: "photos_sent (general p') = photos_sent (general p) +
          int (length (filter (\<lambda>a. \<not> is_gif a) ?atts))"
    and 2: "gifs_sent (general p') = gifs_sent (general p) + int (length (filter is_gif ?atts))"
    unfolding gg by (simp_all add: cadd_def sent_photos_def create_stats_sub_def)
  have 3: "photos_sent (get_person_stats p' iv) = photos_sent (get_person_stats p iv) +
          int (length (filter (\<lambda>a. \<not> is_gif a) ?atts))"
    and 4: "gifs_sent (get_person_stats p' iv) = gifs_sent (get_person_stats p iv) +
          int (length (filter is_gif ?atts))"
    unfolding gi by (simp_all add: cadd_def sent_photos_def create_stats_sub_def)
  have 5: "length (filter (\<lambda>a. \<not> is_gif a) ?atts) + length (filter is_gif ?atts) = length ?atts"
    using sum_length_filter_compl [of is_gif ?atts] by (simp only: add.commute)
  have 6: "\<forall>a. is_gif a \<longleftrightarrow> sublist (ascii ''.gif'') (uri a)"
    by (simp only: is_gif_def str_contains_sublist simp_thms)
  show ?thesis
  proof (intro conjI)
    show "\<forall>a. is_gif a \<longleftrightarrow> sublist (ascii ''.gif'') (uri a)" by (rule 6)
    show "\<exists>p'. get_person st' (sender_name m) = Inr p' \<and>
        photos_sent (general p') = photos_sent (general p) +
          int (length (filter (\<lambda>a. \<not> is_gif a) ?atts)) \<and>
        gifs_sent (general p') = gifs_sent (general p) + int (length (filter is_gif ?atts)) \<and>
        photos_sent (get_person_stats p' iv) = photos_sent (get_person_stats p iv) +
          int (length (filter (\<lambda>a. \<not> is_gif a) ?atts)) \<and>
        gifs_sent (get_person_stats p' iv) = gifs_sent (get_person_stats p iv) +
          int (length (filter is_gif ?atts))"
      using p' 1 2 3 4 by (intro exI [of _ p'] conjI)
    show "length (filter (\<lambda>a. \<not> is_gif a) ?atts) + length (filter is_gif ?atts) = length ?atts"
      by (rule 5)
  qed
qed

theorem photos_and_gifs_partition_witness:
  "\<exists>st' p'. handle_photos_and_gifs alice_table (IntKey 14) album_msg = Inr st' \<and>
     get_person st' alice = Inr p' \<and>
     photos_sent (general p') = 3 \<and> gifs_sent (general p') = 2 \<and>
     photos_sent (get_person_stats p' (IntKey 14)) = 3 \<and>
     gifs_sent (get_person_stats p' (IntKey 14)) = 2"
proof -
  let ?p = "\<lparr>general = create_stats_sub, ints = [(IntKey 14, create_stats_sub)]\<rparr>"
  have p: "get_person alice_table (sender_name album_msg) = Inr ?p"
    by (simp add: alice_table_def album_msg_def bare_msg_def get_person_def)
  have k: "IntKey 14 \<in> fst ` set (ints ?p)"
    by simp
  have t: "truthy (photos album_msg)"
    by (simp add: album_msg_def bare_msg_def truthy_def)
  from stage_ok(2) [OF p k] t obtain st' where
    st': "handle_photos_and_gifs alice_table (IntKey 14) album_msg = Inr st'"
    by auto
  have s: "sender_name album_msg = alice"
    by (simp add: album_msg_def bare_msg_def)
  have n: "length (filter (\<lambda>a. \<not> is_gif a) (get_list (photos album_msg) @ get_list (gifs album_msg))) = 3"
    "length (filter is_gif (get_list (photos album_msg) @ get_list (gifs album_msg))) = 2"
    by (simp_all add: album_msg_def bare_msg_def get_list_def is_gif_def ascii_def)
  have z: "photos_sent (general ?p) = 0" "gifs_sent (general ?p) = 0"
    "photos_sent (get_person_stats ?p (IntKey 14)) = 0"
    "gifs_sent (get_person_stats ?p (IntKey 14)) = 0"
    by (simp_all add: create_stats_sub_def get_person_stats_def)
  from photos_and_gifs_partition [OF st' p, THEN conjunct2, THEN conjunct1, unfolded s n z]
  obtain p' where "get_person st' alice = Inr p'"
    and "photos_sent (general p') = 3" and "gifs_sent (general p') = 2"
    and "photos_sent (get_person_stats p' (IntKey 14)) = 3"
    and "gifs_sent (get_person_stats p' (IntKey 14)) = 2"
    by auto
  with st' show ?thesis
    by blast
qed

text \<open>
  C4 as stated fails: \<open>'a.gif.png'\<close> does not end in \<open>'.gif'\<close> and is counted as a GIF.
\<close>

theorem gif_marker_inside_name:
  "is_gif \<lparr>uri = ascii ''a.gif.png''\<rparr> \<and>
   \<not> suffix (ascii ''.gif'') (uri \<lparr>uri = ascii ''a.gif.png''\<rparr>) \<and>
   count_photos_gifs [\<lparr>uri = ascii ''a.gif.png''\<rparr>] (0, 0) = (0, 1)"
  by (simp add: is_gif_def ascii_def suffix_to_prefix)

text \<open>
  C5: when every sender and every reacting actor is a declared participant, the loop over
  the messages returns a table. In every table it returns, the participants are the
  declared names, the interval keys of a participant are distinct, and the participant's
  all-time \<open>msgs_sent\<close> equals the sum of \<open>msgs_sent\<close> over the participant's interval
  entries. Every step keeps that equation for every participant.
\<close>

theorem totals_consistency:
  "(list_all (well_formed ps) ms \<longrightarrow>
      (\<exists>st. analyze_loop K args (initial_stats args ps) ms = Inr st)) \<and>
   (\<forall>st. analyze_loop K args (initial_stats args ps) ms = Inr st \<longrightarrow>
      (\<forall>who. declared ps who \<longleftrightarrow> (\<exists>p. get_person st who = Inr p)) \<and>
      (\<forall>who p. get_person st who = Inr p \<longrightarrow>
         distinct (map fst (ints p)) \<and> totals_consistent p)) \<and>
   (\<forall>st m st' who p.
      analyze_step K args st m = Inr st' \<and> get_person st who = Inr p \<and> totals_consistent p \<longrightarrow>
      (\<exists>p'. get_person st' who = Inr p' \<and> totals_consistent p'))"
proof (intro conjI allI impI)
  assume "list_all (well_formed ps) ms"
  then show "\<exists>st. analyze_loop K args (initial_stats args ps) ms = Inr st"
    by (rule analyze_loop_well_formed)
next
  fix st who
  assume "analyze_loop K args (initial_stats args ps) ms = Inr st"
  then show "declared ps who \<longleftrightarrow> (\<exists>p. get_person st who = Inr p)"
    by (simp add: reached_people)
next
  fix st who p
  assume st: "analyze_loop K args (initial_stats args ps) ms = Inr st"
    and p: "get_person st who = Inr p"
  from analyze_loop_person(6) [OF st p] show "distinct (map fst (ints p))" .
  from analyze_loop_person(3,5) [OF st p] show "totals_consistent p"
    by (simp add: totals_consistent_iff)
next
  fix st m st' who p
  assume "analyze_step K args st m = Inr st' \<and> get_person st who = Inr p \<and> totals_consistent p"
  then have st': "analyze_step K args st m = Inr st'" and p: "get_person st who = Inr p"
    and c: "totals_consistent p"
    by simp_all
  from effect_person [OF effect_analyze_step [OF st'] p] obtain p' where
    p': "get_person st' who = Inr p'"
    and g: "grows (contribution K m who)
              (\<lambda>iv. if iv = get_correct_interval (timestamp m) args
                     then contribution K m who else create_stats_sub) p p'"
    by blast
  from g have "msgs_sent (general p') = msgs_sent (general p) + msgs_sent (contribution K m who)"
    and "msgs_sent (interval_sum p') = msgs_sent (interval_sum p) + msgs_sent (contribution K m who)"
    by (simp_all add: grows_def cadd_def)
  with c have "totals_consistent p'"
    by (simp add: totals_consistent_iff)
  with p' show "\<exists>p'. get_person st' who = Inr p' \<and> totals_consistent p'"
    by blast
qed

theorem totals_consistency_witness:
  "list_all (well_formed [\<lparr>name = alice\<rparr>]) two_texts \<and> declared [\<lparr>name = alice\<rparr>] alice \<and>
   (\<exists>st p. analyze_loop {} monthly (initial_stats monthly [\<lparr>name = alice\<rparr>]) two_texts = Inr st \<and>
      get_person st alice = Inr p \<and> distinct (map fst (ints p)) \<and> totals_consistent p \<and>
      (\<exists>st' p'. analyze_step {} monthly st
                  (text_msg alice \<lparr>year = 2018, month = 9, hour = 1\<rparr> ''hi'') = Inr st' \<and>
         get_person st' alice = Inr p' \<and> totals_consistent p'))"
proof -
  let ?ps = "[\<lparr>name = alice\<rparr>]"
  let ?m = "text_msg alice \<lparr>year = 2018, month = 9, hour = 1\<rparr> ''hi''"
  note t = totals_consistency [of ?ps two_texts "{}" monthly]
  have d: "declared ?ps alice"
    by (simp add: declared_def example_names)
  from t two_texts_well_formed obtain st where
    st: "analyze_loop {} monthly (initial_stats monthly ?ps) two_texts = Inr st"
    by blast
  with t d obtain p where p: "get_person st alice = Inr p"
    by blast
  with t st have c: "distinct (map fst (ints p))" "totals_consistent p"
    by blast+
  have "\<exists>st'. analyze_step {} monthly st ?m = Inr st'"
  proof (rule analyze_step_ok)
    show "get_intervals st =
        Inr (first_seen (map (\<lambda>m. get_correct_interval (timestamp m) monthly) two_texts))"
      by (rule reached_intervals [OF st])
    show "get_person st (sender_name ?m) = Inr p"
      using p by (simp add: text_msg_def bare_msg_def)
    show "list_all (\<lambda>a. \<exists>p. get_person st a = Inr p) (map actor (get_list (msg_reactions ?m)))"
      by (simp add: text_msg_def bare_msg_def get_list_def)
  qed
  then obtain st' where st': "analyze_step {} monthly st ?m = Inr st'"
    by blast
  with t p c obtain p' where "get_person st' alice = Inr p'" "totals_consistent p'"
    by blast
  with two_texts_well_formed d st p c st' show ?thesis
    by blast
qed

text \<open>
  C6: when every sender and every reacting actor is a declared participant, the loop over
  the messages returns a table. In every table it returns, each participant has one
  entry, and the all-time \<open>msgs_sent\<close> of all participants add up to the number of
  messages whose \<open>content\<close> is present and not empty.
\<close>

theorem no_double_counting:
  "(list_all (well_formed ps) ms \<longrightarrow>
      (\<exists>st. analyze_loop K args (initial_stats args ps) ms = Inr st)) \<and>
   (\<forall>st. analyze_loop K args (initial_stats args ps) ms = Inr st \<longrightarrow>
      distinct (map fst st) \<and>
      total_msgs_sent st = int (length (filter (\<lambda>m. truthy (content m)) ms)))"
proof (intro conjI allI impI)
  assume "list_all (well_formed ps) ms"
  then show "\<exists>st. analyze_loop K args (initial_stats args ps) ms = Inr st"
    by (rule analyze_loop_well_formed)
next
  fix st
  assume st: "analyze_loop K args (initial_stats args ps) ms = Inr st"
  note e = effect_analyze_loop [OF st]
  from e have "map fst st = map fst (initial_stats args ps)"
    by (simp add: effect_def)
  then show "distinct (map fst st)"
    by (simp add: distinct_initial)
  from e have "table_sum st = csum (map (added K) ms)"
    by (simp add: effect_def table_sum_initial)
  then show "total_msgs_sent st = int (length (filter (\<lambda>m. truthy (content m)) ms))"
    by (simp add: total_msgs_sent_eq csum_fields comp_def added_msgs_sent sum_list_indicator)
qed

theorem no_double_counting_witness:
  "list_all (well_formed [\<lparr>name = alice\<rparr>, \<lparr>name = bob\<rparr>]) (reacted_msg # two_texts) \<and>
   (\<exists>st. analyze_loop {} monthly (initial_stats monthly [\<lparr>name = alice\<rparr>, \<lparr>name = bob\<rparr>])
           (reacted_msg # two_texts) = Inr st \<and>
      distinct (map fst st) \<and> total_msgs_sent st = 2)"
proof -
  let ?ps = "[\<lparr>name = alice\<rparr>, \<lparr>name = bob\<rparr>]"
  have w: "list_all (well_formed ?ps) (reacted_msg # two_texts)"
    by (simp add: two_texts_def reacted_msg_def well_formed_def declared_def actors_def
        text_msg_def bare_msg_def get_list_def example_names)
  have n: "length (filter (\<lambda>m. truthy (content m)) (reacted_msg # two_texts)) = 2"
    by (simp add: two_texts_def reacted_msg_def text_msg_def bare_msg_def truthy_def ascii_def)
  from no_double_counting [of ?ps "reacted_msg # two_texts" "{}" monthly] w n show ?thesis
    by auto
qed

text \<open>
  C7 (the code departs from it): with the participants Bob and Alice and two text
  messages of Alice, of 4 and 6 characters in one month, the loop over the messages
  leaves Alice with \<open>msgs_sent\<close> 2 and the sum 10 in \<open>avg_msg_len\<close>, all-time and for the
  month. The averaging loop then divides Bob's 0 by 0 and raises: Alice's sums are never
  divided and no table is printed.
\<close>

theorem silent_participant_blocks_average:
  "analyze {} monthly [\<lparr>name = bob\<rparr>, \<lparr>name = alice\<rparr>] two_texts = Inl ZeroDivisionError \<and>
   analyze_loop {} monthly (initial_stats monthly [\<lparr>name = bob\<rparr>, \<lparr>name = alice\<rparr>]) two_texts =
     Inr [(bob, Person \<lparr>general = create_stats_sub, ints = []\<rparr>),
          (alice, Person
             \<lparr>general = create_stats_sub\<lparr>msgs_sent := 2, avg_msg_len := 10\<rparr>,
              ints = [(StrKey (ascii ''2018-08''),
                       create_stats_sub\<lparr>msgs_sent := 2, avg_msg_len := 10\<rparr>)]\<rparr>),
          (intervals_key, Intervals [StrKey (ascii ''2018-08'')])]"
  by (simp add: run_simps two_texts_def)

text \<open>
  What the averaging pass does when it completes. An analysis returns a table when every
  sender and actor is declared and every participant sent a text message. In every table
  it returns, a participant's \<open>msgs_sent\<close> is the number of the participant's text messages
  and is positive, and \<open>avg_msg_len\<close> is the float quotient of the summed lengths of their
  contents by that number. Every interval entry counts the participant's text messages of
  that interval; its \<open>avg_msg_len\<close> is the quotient of their summed lengths by the entry's
  own \<open>msgs_sent\<close> when that is positive, and stays the int 0 otherwise. Two messages of
  4 and 6 characters in one month give 5 for the month and 5 overall.
\<close>

lemma averages_use_own_count:
  "(list_all (well_formed ps) ms \<and>
    list_all (\<lambda>p. name p = intervals_key \<or> texts_of (name p) ms \<noteq> []) ps \<longrightarrow>
      (\<exists>tbl. analyze K args ps ms = Inr tbl)) \<and>
   (\<forall>tbl who q. analyze K args ps ms = Inr tbl \<and> get_person tbl who = Inr q \<longrightarrow>
      msgs_sent (general q) = int (length (texts_of who ms)) \<and>
      0 < msgs_sent (general q) \<and>
      avg_msg_len (general q) =
        PyFloat (of_int (total_length (texts_of who ms)) / of_int (msgs_sent (general q))) \<and>
      (\<forall>iv c. map_of (ints q) iv = Some c \<longrightarrow>
         msgs_sent c = int (length (in_interval args iv (texts_of who ms))) \<and>
         avg_msg_len c =
           (if 0 < msgs_sent c
            then PyFloat (of_int (total_length (in_interval args iv (texts_of who ms))) /
                          of_int (msgs_sent c))
            else PyInt 0)))"
proof (intro conjI allI impI)
  assume "list_all (well_formed ps) ms \<and>
    list_all (\<lambda>p. name p = intervals_key \<or> texts_of (name p) ms \<noteq> []) ps"
  then show "\<exists>tbl. analyze K args ps ms = Inr tbl"
    by (simp add: analyze_returns)
next
  fix tbl who q
  assume a: "analyze K args ps ms = Inr tbl \<and> get_person tbl who = Inr q"
  then obtain st p where st: "analyze_loop K args (initial_stats args ps) ms = Inr st"
    and p: "get_person st who = Inr p" and n0: "msgs_sent (general p) \<noteq> 0"
    and g: "general q = with_avg (general p)
           (PyFloat (of_int (avg_msg_len (general p)) / of_int (msgs_sent (general p))))"
    and i: "ints q = map (\<lambda>(k, c). (k, averaged c)) (ints p)"
    using analyze_person [of K args ps ms tbl who q] by blast
  note lp = analyze_loop_person [OF st p]
  from lp(3) have gm: "msgs_sent (general p) = int (length (texts_of who ms))"
    and ga: "avg_msg_len (general p) = total_length (texts_of who ms)"
    by (simp_all add: tally_fields)
  from g gm show 1: "msgs_sent (general q) = int (length (texts_of who ms))"
    by (simp add: with_avg_def)
  from n0 gm 1 show "0 < msgs_sent (general q)"
    by simp
  from g ga 1 gm show "avg_msg_len (general q) =
       PyFloat (of_int (total_length (texts_of who ms)) / of_int (msgs_sent (general q)))"
    by (simp add: with_avg_def)
  fix iv c
  assume c: "map_of (ints q) iv = Some c"
  from c i obtain c0 where c0: "map_of (ints p) iv = Some c0" and cc: "c = averaged c0"
    by (auto simp: map_of_averaged)
  from c0 have "get_person_stats p iv = c0"
    by (simp add: get_person_stats_def)
  with lp(4) [of iv] have t: "c0 = tally K (in_interval args iv ms) who"
    by simp
  then have m: "msgs_sent c0 = int (length (in_interval args iv (texts_of who ms)))"
    and l: "avg_msg_len c0 = total_length (in_interval args iv (texts_of who ms))"
    by (simp_all add: tally_fields texts_in_interval)
  have mc: "msgs_sent c = msgs_sent c0"
    by (simp add: cc averaged_def with_avg_def untouched_def)
  with m show "msgs_sent c = int (length (in_interval args iv (texts_of who ms)))"
    by simp
  have ac: "avg_msg_len c =
        (if 0 < msgs_sent c0
         then PyFloat (of_int (avg_msg_len c0) / of_int (msgs_sent c0))
         else PyInt (avg_msg_len c0))"
    by (simp add: cc averaged_def with_avg_def untouched_def)
  have "avg_msg_len c0 = 0" if "\<not> 0 < msgs_sent c0"
  proof -
    from that m have "in_interval args iv (texts_of who ms) = []" by simp
    with l show ?thesis by (simp add: total_length_def)
  qed
  with ac mc m l show "avg_msg_len c =
           (if 0 < msgs_sent c
            then PyFloat (of_int (total_length (in_interval args iv (texts_of who ms))) /
                          of_int (msgs_sent c))
            else PyInt 0)"
    by simp
qed

lemma averages_use_own_count_example:
  "list_all (well_formed [\<lparr>name = alice\<rparr>]) two_texts \<and>
   list_all (\<lambda>p. name p = intervals_key \<or> texts_of (name p) two_texts \<noteq> []) [\<lparr>name = alice\<rparr>] \<and>
   (\<exists>tbl q c. analyze {} monthly [\<lparr>name = alice\<rparr>] two_texts = Inr tbl \<and>
     get_person tbl alice = Inr q \<and> msgs_sent (general q) = 2 \<and>
     avg_msg_len (general q) = PyFloat 5 \<and>
     map_of (ints q) (StrKey (ascii ''2018-08'')) = Some c \<and> msgs_sent c = 2 \<and>
     avg_msg_len c = PyFloat 5)"
proof -
  let ?ps = "[\<lparr>name = alice\<rparr>]"
  note t = averages_use_own_count [of ?ps two_texts "{}" monthly]
  have w: "list_all (well_formed ?ps) two_texts"
    by (rule two_texts_well_formed)
  have x: "texts_of alice two_texts = two_texts"
    by (simp add: texts_of_def two_texts_def text_msg_def bare_msg_def truthy_def ascii_def)
  then have e: "list_all (\<lambda>p. name p = intervals_key \<or> texts_of (name p) two_texts \<noteq> []) ?ps"
    by (simp add: two_texts_def)
  from t w e obtain tbl where r: "analyze {} monthly ?ps two_texts = Inr tbl"
    by blast
  have "tbl = [(alice, Person \<lparr>general = \<lparr>msgs_sent = 2, avg_msg_len = PyFloat 5, photos_sent = 0,
        vids_sent = 0, links_sent = 0, gifs_sent = 0, emojis_sent = 0, reactions = 0\<rparr>,
      ints = [(StrKey (ascii ''2018-08''), \<lparr>msgs_sent = 2, avg_msg_len = PyFloat 5,
        photos_sent = 0, vids_sent = 0, links_sent = 0, gifs_sent = 0, emojis_sent = 0,
        reactions = 0\<rparr>)]\<rparr>),
     (intervals_key, Intervals [StrKey (ascii ''2018-08'')])]"
    using r by (simp add: run_simps two_texts_def)
  then obtain q c where q: "get_person tbl alice = Inr q"
    and c: "map_of (ints q) (StrKey (ascii ''2018-08'')) = Some c"
    by (simp add: get_person_def)
  have k: "in_interval monthly (StrKey (ascii ''2018-08'')) two_texts = two_texts"
    by (simp add: in_interval_def two_texts_def text_msg_def bare_msg_def get_correct_interval_def
        str_int_def fmt_02d_def digits_1 digits_4 ascii_def)
  have n: "length two_texts = 2" "total_length two_texts = 10"
    by (simp_all add: two_texts_def total_length_def text_msg_def bare_msg_def get_list_def ascii_def)
  from t r q have "msgs_sent (general q) = int (length (texts_of alice two_texts))"
    and "avg_msg_len (general q) =
        PyFloat (of_int (total_length (texts_of alice two_texts)) / of_int (msgs_sent (general q)))"
    by blast+
  then have g: "msgs_sent (general q) = 2" "avg_msg_len (general q) = PyFloat 5"
    by (simp_all add: x n)
  from t r q c have "msgs_sent c =
      int (length (in_interval monthly (StrKey (ascii ''2018-08'')) (texts_of alice two_texts)))"
    and "avg_msg_len c =
      (if 0 < msgs_sent c
       then PyFloat (of_int (total_length (in_interval monthly (StrKey (ascii ''2018-08''))
                        (texts_of alice two_texts))) / of_int (msgs_sent c))
       else PyInt 0)"
    by blast+
  then have h: "msgs_sent c = 2" "avg_msg_len c = PyFloat 5"
    by (simp_all add: x k n)
  from w e r q c g h show ?thesis
    by blast
qed

text \<open>
  C8: \<open>count_emoji\<close> returns the number of positions at which a backslash is followed by
  \<open>u\<close>, divided by 4 with integer division, plus the number of characters of the string
  that are keys of the symbol table; the two are added, and the result is not negative.
\<close>

theorem count_emoji_sum:
  "count_emoji K s =
     int (length (filter (\<lambda>(a, b). a = 92 \<and> b = 117) (zip s (tl s)))) div 4 +
     int (length (filter (\<lambda>c. [c] \<in> K) s)) \<and>
   0 \<le> count_emoji K s"
proof -
  have eq: "count_emoji K s =
     int (length (filter (\<lambda>(a, b). a = 92 \<and> b = 117) (zip s (tl s)))) div 4 +
     int (length (filter (\<lambda>c. [c] \<in> K) s))"
    by (simp add: count_emoji_def str_count_marker foldl_count)
  have "0 \<le> int (length (filter (\<lambda>(a, b). a = 92 \<and> b = 117) (zip s (tl s)))) div 4"
    by (rule pos_imp_zdiv_nonneg_iff [THEN iffD2]) simp_all
  with eq show ?thesis by simp
qed

text \<open>
  C9 (amended): for a \<open>datetime\<close> (year 1 to 9999, month 1 to 12, hour 0 to 23) the key is
  the hour, an int from 0 to 23, in hourly mode; the year, a hyphen and the month as two
  digits in monthly mode; the year in yearly mode. The year is written in decimal without
  padding: four digits from the year 1000 on, fewer before. The key is a function of the
  \<open>datetime\<close> and the mode.
\<close>

theorem interval_key_format:
  assumes "valid_datetime stamp"
  shows "get_correct_interval stamp hourly = IntKey (hour stamp) \<and>
     0 \<le> hour stamp \<and> hour stamp \<le> 23 \<and>
     get_correct_interval stamp monthly =
       StrKey (str_int (year stamp) @ ascii ''-'' @
               [48 + nat (month stamp) div 10, 48 + nat (month stamp) mod 10]) \<and>
     get_correct_interval stamp yearly = StrKey (str_int (year stamp)) \<and>
     (if 1000 \<le> year stamp
      then str_int (year stamp) =
             [48 + nat (year stamp) div 1000, 48 + nat (year stamp) div 100 mod 10,
              48 + nat (year stamp) div 10 mod 10, 48 + nat (year stamp) mod 10]
      else length (str_int (year stamp)) < 4)"
proof -
  from assms have y: "1 \<le> year stamp" "year stamp \<le> 9999"
    and m: "1 \<le> month stamp" "month stamp \<le> 12"
    and h: "0 \<le> hour stamp" "hour stamp \<le> 23"
    by (simp_all add: valid_datetime_def)
  have mm: "fmt_02d (month stamp) = [48 + nat (month stamp) div 10, 48 + nat (month stamp) mod 10]"
  proof (cases "month stamp < 10")
    case True
    with m show ?thesis by (simp add: fmt_02d_def digits_1)
  next
    case False
    with m show ?thesis by (simp add: fmt_02d_def digits_2)
  qed
  have yy: "str_int (year stamp) =
             [48 + nat (year stamp) div 1000, 48 + nat (year stamp) div 100 mod 10,
              48 + nat (year stamp) div 10 mod 10, 48 + nat (year stamp) mod 10]"
    if "1000 \<le> year stamp"
    using that y by (simp add: str_int_def digits_4)
  have ys: "length (str_int (year stamp)) < 4" if "\<not> 1000 \<le> year stamp"
    using that y by (simp add: str_int_def digits_short)
  from h mm yy ys show ?thesis
    by (simp add: get_correct_interval_def)
qed

theorem interval_key_format_witness:
  "valid_datetime \<lparr>year = 2018, month = 8, hour = 14\<rparr> \<and>
   get_correct_interval \<lparr>year = 2018, month = 8, hour = 14\<rparr> hourly = IntKey 14 \<and>
   get_correct_interval \<lparr>year = 2018, month = 8, hour = 14\<rparr> monthly = StrKey (ascii ''2018-08'') \<and>
   get_correct_interval \<lparr>year = 2018, month = 8, hour = 14\<rparr> yearly = StrKey (ascii ''2018'')"
proof -
  have v: "valid_datetime \<lparr>year = 2018, month = 8, hour = 14\<rparr>"
    by (simp add: valid_datetime_def)
  from interval_key_format [OF v] v show ?thesis
    by (simp add: ascii_def)
qed

text \<open>
  C9 as stated fails: for the year 999 the keys are \<open>'999-01'\<close> and \<open>'999'\<close>, not of the
  forms \<open>YYYY-MM\<close> and \<open>YYYY\<close>.
\<close>

theorem short_year_key:
  "valid_datetime \<lparr>year = 999, month = 1, hour = 0\<rparr> \<and>
   get_correct_interval \<lparr>year = 999, month = 1, hour = 0\<rparr> monthly = StrKey (ascii ''999-01'') \<and>
   get_correct_interval \<lparr>year = 999, month = 1, hour = 0\<rparr> yearly = StrKey (ascii ''999'') \<and>
   length (ascii ''999-01'') = 6 \<and> length (ascii ''999'') = 3"
  by (simp add: valid_datetime_def get_correct_interval_def str_int_def fmt_02d_def digits_1
      digits_3 ascii_def)

text \<open>
  C10 (amended): on a table the loop has reached, a step for a message whose sender is not
  in the participants list raises \<open>KeyError\<close>, or \<open>TypeError\<close> when the sender's name is
  \<open>'intervals'\<close>, the key under which the table keeps its list of intervals. When the
  sender is a participant and some reacting actor is not, the step raises the same way for
  such an actor. In both cases no table is returned: no entry is created and the message
  is not skipped.
\<close>

theorem undeclared_name_raises:
  assumes "analyze_loop K args (initial_stats args ps) before = Inr st"
  shows "(sender_name m \<notin> set (map name ps) \<longrightarrow>
            analyze_step K args st m =
              Inl (if sender_name m = intervals_key then TypeError else KeyError)) \<and>
         (declared ps (sender_name m) \<and> \<not> list_all (declared ps) (actors m) \<longrightarrow>
            (\<exists>a. a \<in> set (actors m) \<and> \<not> declared ps a \<and>
               analyze_step K args st m = Inl (if a = intervals_key then TypeError else KeyError)))"
proof (intro conjI impI)
  note gi = reached_intervals [OF assms]
  have err: "get_person st who = Inl (if who = intervals_key then TypeError else KeyError)"
    if "\<not> declared ps who" for who
    using that by (auto simp: reached_errors [OF assms] get_person_initial declared_def)
  {
    assume "sender_name m \<notin> set (map name ps)"
    then have "\<not> declared ps (sender_name m)"
      by (simp add: declared_def)
    from analyze_step_sender_fail [OF gi err [OF this]]
    show "analyze_step K args st m =
              Inl (if sender_name m = intervals_key then TypeError else KeyError)" .
  }
  {
    assume a: "declared ps (sender_name m) \<and> \<not> list_all (declared ps) (actors m)"
    then obtain sp where sp: "get_person st (sender_name m) = Inr sp"
      using reached_people [OF assms] by blast
    from a have "\<not> list_all (\<lambda>a. \<exists>p. get_person st a = Inr p)
               (map actor (get_list (msg_reactions m)))"
      by (simp add: reached_people [OF assms] actors_def list_all_iff)
    from analyze_step_actor_fail [OF gi sp this, of K args] obtain a e where
      ae: "a \<in> set (actors m)" "get_person st a = Inl e" "analyze_step K args st m = Inl e"
      by (auto simp: actors_def)
    from ae(2) have nd: "\<not> declared ps a"
      using reached_people [OF assms, of a] by auto
    from err [OF nd] ae(2,3) have "analyze_step K args st m =
        Inl (if a = intervals_key then TypeError else KeyError)"
      by simp
    with ae(1) nd show "\<exists>a. a \<in> set (actors m) \<and> \<not> declared ps a \<and>
               analyze_step K args st m = Inl (if a = intervals_key then TypeError else KeyError)"
      by blast
  }
qed

theorem undeclared_name_raises_witness:
  "bob \<notin> set (map name [\<lparr>name = alice\<rparr>]) \<and>
   (\<exists>st. analyze_loop {} monthly (initial_stats monthly [\<lparr>name = alice\<rparr>]) two_texts = Inr st \<and>
      analyze_step {} monthly st (text_msg bob \<lparr>year = 2018, month = 9, hour = 1\<rparr> ''hi'')
        = Inl KeyError \<and>
      analyze_step {} monthly st reacted_msg = Inl KeyError)"
proof -
  let ?ps = "[\<lparr>name = alice\<rparr>]"
  from analyze_loop_well_formed [OF two_texts_well_formed] obtain st where
    st: "analyze_loop {} monthly (initial_stats monthly ?ps) two_texts = Inr st"
    by blast
  have b: "bob \<notin> set (map name ?ps)"
    using example_names by simp
  have 1: "sender_name (text_msg bob \<lparr>year = 2018, month = 9, hour = 1\<rparr> ''hi'') \<notin> set (map name ?ps)"
    using b by (simp add: text_msg_def bare_msg_def)
  have 2: "declared ?ps (sender_name reacted_msg) \<and> \<not> list_all (declared ?ps) (actors reacted_msg)"
    using example_names
    by (simp add: reacted_msg_def bare_msg_def declared_def actors_def get_list_def)
  have 3: "actors reacted_msg = [bob]"
    by (simp add: reacted_msg_def bare_msg_def actors_def get_list_def)
  from undeclared_name_raises [OF st, of "text_msg bob \<lparr>year = 2018, month = 9, hour = 1\<rparr> ''hi''"] 1
  have "analyze_step {} monthly st (text_msg bob \<lparr>year = 2018, month = 9, hour = 1\<rparr> ''hi'')
        = Inl KeyError"
    using example_names by (simp add: text_msg_def bare_msg_def)
  moreover from undeclared_name_raises [OF st, of reacted_msg] 2
  have "analyze_step {} monthly st reacted_msg = Inl KeyError"
    using example_names by (auto simp: 3)
  ultimately show ?thesis
    using st b by auto
qed

text \<open>
  C10 as stated fails: for a sender named \<open>'intervals'\<close>, who is not a declared
  participant, the error is not a key-lookup error.
\<close>

theorem intervals_name_raises_type_error:
  "ascii ''intervals'' \<notin> set (map name [\<lparr>name = alice\<rparr>]) \<and>
   analyze_step {} hourly (initial_stats hourly [\<lparr>name = alice\<rparr>])
     (text_msg (ascii ''intervals'') \<lparr>year = 2018, month = 8, hour = 14\<rparr> ''hi'')
   = Inl TypeError"
proof -
  have "get_person (initial_stats hourly [\<lparr>name = alice\<rparr>]) (ascii ''intervals'') = Inl TypeError"
    by (simp add: get_person_initial intervals_key_def)
  then show ?thesis
    by (simp add: analyze_step_sender_fail [OF get_intervals_initial] text_msg_def bare_msg_def
        alice_def ascii_def)
qed

end
